theory Spec2Isabelle
  imports Main "HOL-Library.Code_Target_Numeral"
begin

unbundle bit_operations_syntax

section \<open>The operating system seen by \<open>kklib/src/os.c\<close>\<close>

text \<open>
  The functions of \<open>os.c\<close> are thin layers over POSIX system calls. The system calls
  themselves are not part of the source, so they are modelled here as explicit
  functions on a \<open>world\<close>: a small file system, a descriptor table, the C variable
  \<open>errno\<close>, and a script of results for the calls that move bytes. Every function of
  \<open>os.c\<close> is then translated statement by statement on top of these calls; the branch
  that is translated is the one the preprocessor selects on a Unix that is neither
  Linux nor macOS (no \<open>WIN32\<close>, \<open>__APPLE__\<close>, \<open>__linux__\<close>). For \<open>kk_os_copy_file\<close>
  the Linux branch is translated as well.
\<close>

subsection \<open>Error numbers\<close>

text \<open>
  The constants of \<open><errno.h>\<close>. Only the facts that they are positive and pairwise
  distinct matter below, and that \<open>ENOENT\<close> is 2, the number of the standard error
  descriptor.
\<close>

definition EPERM :: int where [simp]: "EPERM = 1"
definition ENOENT :: int where [simp]: "ENOENT = 2"
definition EINTR :: int where [simp]: "EINTR = 4"
definition EIO :: int where [simp]: "EIO = 5"
definition EBADF :: int where [simp]: "EBADF = 9"
definition EAGAIN :: int where [simp]: "EAGAIN = 11"
definition ENOMEM :: int where [simp]: "ENOMEM = 12"
definition EACCES :: int where [simp]: "EACCES = 13"
definition EEXIST :: int where [simp]: "EEXIST = 17"
definition ENOTDIR :: int where [simp]: "ENOTDIR = 20"
definition EISDIR :: int where [simp]: "EISDIR = 21"
definition EINVAL :: int where [simp]: "EINVAL = 22"
definition EMFILE :: int where [simp]: "EMFILE = 24"
definition ENOSPC :: int where [simp]: "ENOSPC = 28"
definition ESPIPE :: int where [simp]: "ESPIPE = 29"

text \<open>
  The errors a simulated call can fail with. A failing call always sets \<open>errno\<close> to a
  positive number; the datatype makes that true by construction.
\<close>

datatype errcode =
  E_PERM | E_NOENT | E_INTR | E_IO | E_BADF | E_AGAIN | E_NOMEM | E_ACCES
| E_EXIST | E_NOTDIR | E_ISDIR | E_INVAL | E_NOSPC

fun errno_of :: "errcode \<Rightarrow> int" where
  "errno_of E_PERM = EPERM"
| "errno_of E_NOENT = ENOENT"
| "errno_of E_INTR = EINTR"
| "errno_of E_IO = EIO"
| "errno_of E_BADF = EBADF"
| "errno_of E_AGAIN = EAGAIN"
| "errno_of E_NOMEM = ENOMEM"
| "errno_of E_ACCES = EACCES"
| "errno_of E_EXIST = EEXIST"
| "errno_of E_NOTDIR = ENOTDIR"
| "errno_of E_ISDIR = EISDIR"
| "errno_of E_INVAL = EINVAL"
| "errno_of E_NOSPC = ENOSPC"

text \<open>The two transient failures: the call was interrupted, or would block.\<close>

fun transient :: "errcode \<Rightarrow> bool" where
  "transient E_INTR = True"
| "transient E_AGAIN = True"
| "transient _ = False"

subsection \<open>The world\<close>

type_synonym bytes = "char list"
type_synonym path = "string list"

text \<open>
  A file system node is a regular file (permission bits and contents) or a directory
  (permission bits). A path is the list of its components below the root; the working
  directory of the process is the root, so \<open>a/b\<close> and \<open>/a/b\<close> name the same node.
\<close>

datatype node = Reg nat bytes | Dir nat

text \<open>
  An open descriptor refers to a node of the file system, with a file offset and the
  access flags given to \<open>open\<close>, or to the terminal (as the standard descriptors 0, 1, 2
  of a process usually do).
\<close>

datatype ofile = OFile path nat int | OTty

text \<open>
  One entry of the script is the outcome the operating system chooses for one call of
  \<open>read\<close>, \<open>write\<close> or \<open>sendfile\<close>: the call fails with an error, or it moves
  at most the given number of bytes (fewer when less was asked for or less is there).
\<close>

datatype sysres = Fail errcode | Xfer nat

record world =
  fs :: "(path \<times> node) list"
  fdt :: "(int \<times> ofile) list"
  errno :: int
  script :: "sysres list"
  oom :: bool

definition O_RDONLY :: int where [simp]: "O_RDONLY = 0"
definition O_WRONLY :: int where [simp]: "O_WRONLY = 1"

text \<open>
  Modelled from the spec: \<open>KK_SSIZE_MAX\<close> is declared in \<open>kklib.h\<close>, which is not part of
  the source here. The specification describes it as the platform-safe size of one
  call; the value is the largest \<open>ssize_t\<close> of a 64-bit platform.
\<close>

definition KK_SSIZE_MAX :: nat where
  "KK_SSIZE_MAX = 2 ^ 63 - 1"

subsection \<open>System calls that move bytes\<close>

text \<open>
  \<open>update_alist k v xs\<close> replaces the value stored under \<open>k\<close>, or appends the pair when
  the key is new.
\<close>

fun update_alist :: "'k \<Rightarrow> 'v \<Rightarrow> ('k \<times> 'v) list \<Rightarrow> ('k \<times> 'v) list" where
  "update_alist k v [] = [(k, v)]"
| "update_alist k v ((k', v') # xs) =
     (if k' = k then (k, v) # xs else (k', v') # update_alist k v xs)"

text \<open>
  \<open>read(fd, buf, todo)\<close>: the result is the C return value (\<open>-1\<close> on failure, with
  \<open>errno\<close> set), the bytes stored into the buffer and the new world. \<open>None\<close> means that
  the simulated sequence of results has ended.
\<close>

definition sys_read :: "world \<Rightarrow> int \<Rightarrow> nat \<Rightarrow> (int \<times> bytes \<times> world) option" where
  "sys_read w fd todo =
     (case script w of
        [] \<Rightarrow> None
      | r # rs \<Rightarrow>
          let w1 = w\<lparr>script := rs\<rparr> in
          Some (case r of
            Fail e \<Rightarrow> (-1, [], w1\<lparr>errno := errno_of e\<rparr>)
          | Xfer k \<Rightarrow>
              (case map_of (fdt w1) fd of
                 None \<Rightarrow> (-1, [], w1\<lparr>errno := EBADF\<rparr>)
               | Some OTty \<Rightarrow> (0, [], w1)
               | Some (OFile p off fl) \<Rightarrow>
                   if fl \<noteq> O_RDONLY then (-1, [], w1\<lparr>errno := EBADF\<rparr>)
                   else
                     (case map_of (fs w1) p of
                        Some (Reg m c) \<Rightarrow>
                          let d = take (min k todo) (drop off c) in
                          (int (length d), d,
                           w1\<lparr>fdt := update_alist fd (OFile p (off + length d) fl) (fdt w1)\<rparr>)
                      | Some (Dir m) \<Rightarrow> (-1, [], w1\<lparr>errno := EISDIR\<rparr>)
                      | None \<Rightarrow> (-1, [], w1\<lparr>errno := EIO\<rparr>)))))"

text \<open>
  \<open>write(fd, buf, todo)\<close>, with the \<open>todo\<close> bytes to write given as \<open>d\<close>: the C return
  value and the new world.
\<close>

definition sys_write :: "world \<Rightarrow> int \<Rightarrow> bytes \<Rightarrow> (int \<times> world) option" where
  "sys_write w fd d =
     (case script w of
        [] \<Rightarrow> None
      | r # rs \<Rightarrow>
          let w1 = w\<lparr>script := rs\<rparr> in
          Some (case r of
            Fail e \<Rightarrow> (-1, w1\<lparr>errno := errno_of e\<rparr>)
          | Xfer k \<Rightarrow>
              (case map_of (fdt w1) fd of
                 None \<Rightarrow> (-1, w1\<lparr>errno := EBADF\<rparr>)
               | Some OTty \<Rightarrow> (int (min k (length d)), w1)
               | Some (OFile p off fl) \<Rightarrow>
                   if fl \<noteq> O_WRONLY then (-1, w1\<lparr>errno := EBADF\<rparr>)
                   else
                     (case map_of (fs w1) p of
                        Some (Reg m c) \<Rightarrow>
                          let n = min k (length d);
                              c' = take off c @ replicate (off - length c) (CHR 0x00)
                                   @ take n d @ drop (off + n) c
                          in (int n,
                              w1\<lparr>fs := update_alist p (Reg m c') (fs w1),
                                 fdt := update_alist fd (OFile p (off + n) fl) (fdt w1)\<rparr>)
                      | Some (Dir m) \<Rightarrow> (-1, w1\<lparr>errno := EISDIR\<rparr>)
                      | None \<Rightarrow> (-1, w1\<lparr>errno := EIO\<rparr>)))))"

subsection \<open>Paths and lookup\<close>

text \<open>
  \<open>components\<close> splits a path string at each \<open>/\<close>, dropping empty components;
  \<open>path_of\<close> drops the \<open>.\<close> components as well. (A \<open>..\<close> component is not resolved:
  it is looked up as a name, and no node has that name.)
\<close>

fun components :: "string \<Rightarrow> string \<Rightarrow> path" where
  "components cur [] = (if cur = [] then [] else [cur])"
| "components cur (c # cs) =
     (if c = CHR ''/'' then (if cur = [] then [] else [cur]) @ components [] cs
      else components (cur @ [c]) cs)"

definition path_of :: "string \<Rightarrow> path" where
  "path_of s = filter (\<lambda>c. c \<noteq> ''.'') (components [] s)"

text \<open>The root directory always exists; every other node is an entry of \<open>fs\<close>.\<close>

definition lookup :: "world \<Rightarrow> path \<Rightarrow> node option" where
  "lookup w p = (if p = [] then Some (Dir 493) else map_of (fs w) p)"

text \<open>
  Resolving a path string: the empty string names nothing (\<open>ENOENT\<close>); a missing node
  below a regular file is \<open>ENOTDIR\<close>, any other missing node \<open>ENOENT\<close>. Permission
  bits are never an obstacle (the process may read and write everything).
\<close>

definition resolve :: "world \<Rightarrow> string \<Rightarrow> errcode + node" where
  "resolve w s =
     (if s = [] then Inl E_NOENT
      else case lookup w (path_of s) of
             Some nd \<Rightarrow> Inr nd
           | None \<Rightarrow>
               (case lookup w (butlast (path_of s)) of
                  Some (Reg m c) \<Rightarrow> Inl E_NOTDIR
                | _ \<Rightarrow> Inl E_NOENT))"

subsection \<open>File status\<close>

text \<open>
  The fields of \<open>struct stat\<close> that \<open>os.c\<close> reads, and the file type bits of
  \<open><sys/stat.h>\<close>.
\<close>

record stat =
  st_mode :: nat
  st_size :: nat

definition S_IFDIR :: nat where [simp]: "S_IFDIR = 16384"
definition S_IFREG :: nat where [simp]: "S_IFREG = 32768"
definition S_IFCHR :: nat where [simp]: "S_IFCHR = 8192"

text \<open>A \<open>struct stat\<close> initialised with \<open>{ 0 }\<close>.\<close>

definition stat_zero :: stat where
  "stat_zero = \<lparr>st_mode = 0, st_size = 0\<rparr>"

fun stat_of :: "node \<Rightarrow> stat" where
  "stat_of (Reg m c) = \<lparr>st_mode = S_IFREG + m mod 4096, st_size = length c\<rparr>"
| "stat_of (Dir m) = \<lparr>st_mode = S_IFDIR + m mod 4096, st_size = 0\<rparr>"

text \<open>
  \<open>stat(path, &st)\<close> and \<open>fstat(fd, &st)\<close>: the C return value, the contents of \<open>st\<close>
  after the call (unchanged when the call fails) and the new world.
\<close>

definition sys_stat :: "world \<Rightarrow> string \<Rightarrow> stat \<Rightarrow> int \<times> stat \<times> world" where
  "sys_stat w path st =
     (case resolve w path of
        Inl e \<Rightarrow> (-1, st, w\<lparr>errno := errno_of e\<rparr>)
      | Inr nd \<Rightarrow> (0, stat_of nd, w))"

definition sys_fstat :: "world \<Rightarrow> int \<Rightarrow> stat \<Rightarrow> int \<times> stat \<times> world" where
  "sys_fstat w fd st =
     (case map_of (fdt w) fd of
        None \<Rightarrow> (-1, st, w\<lparr>errno := EBADF\<rparr>)
      | Some OTty \<Rightarrow> (0, \<lparr>st_mode = S_IFCHR + 400, st_size = 0\<rparr>, w)
      | Some (OFile p off fl) \<Rightarrow>
          (case lookup w p of
             None \<Rightarrow> (-1, st, w\<lparr>errno := EBADF\<rparr>)
           | Some nd \<Rightarrow> (0, stat_of nd, w)))"

subsection \<open>Descriptors\<close>

text \<open>The lowest descriptor number that is not in use.\<close>

definition free_fd :: "(int \<times> ofile) list \<Rightarrow> int" where
  "free_fd t =
     (case filter (\<lambda>i. map_of t i = None) (map int [0..<Suc (length t)]) of
        [] \<Rightarrow> int (length t)
      | i # _ \<Rightarrow> i)"

text \<open>
  \<open>open(path, flags)\<close> without \<open>O_CREAT\<close>: the path must exist. The result is the new
  descriptor, or \<open>-1\<close> with \<open>errno\<close> set.
\<close>

definition sys_open :: "world \<Rightarrow> string \<Rightarrow> int \<Rightarrow> int \<times> world" where
  "sys_open w path flags =
     (case resolve w path of
        Inl e \<Rightarrow> (-1, w\<lparr>errno := errno_of e\<rparr>)
      | Inr (Dir m) \<Rightarrow>
          if flags \<noteq> O_RDONLY then (-1, w\<lparr>errno := EISDIR\<rparr>)
          else let fd = free_fd (fdt w)
               in (fd, w\<lparr>fdt := fdt w @ [(fd, OFile (path_of path) 0 flags)]\<rparr>)
      | Inr (Reg m c) \<Rightarrow>
          let fd = free_fd (fdt w)
          in (fd, w\<lparr>fdt := fdt w @ [(fd, OFile (path_of path) 0 flags)]\<rparr>))"

text \<open>
  \<open>creat(path, mode)\<close>, that is \<open>open\<close> with \<open>O_WRONLY | O_CREAT | O_TRUNC\<close>: an
  existing regular file is emptied, a missing one is created in an existing directory.
\<close>

definition sys_creat :: "world \<Rightarrow> string \<Rightarrow> nat \<Rightarrow> int \<times> world" where
  "sys_creat w path mode =
     (if path = [] then (-1, w\<lparr>errno := ENOENT\<rparr>)
      else
        let p = path_of path; fd = free_fd (fdt w) in
        case lookup w p of
          Some (Dir m) \<Rightarrow> (-1, w\<lparr>errno := EISDIR\<rparr>)
        | Some (Reg m c) \<Rightarrow>
            (fd, w\<lparr>fs := update_alist p (Reg m []) (fs w),
                   fdt := fdt w @ [(fd, OFile p 0 O_WRONLY)]\<rparr>)
        | None \<Rightarrow>
            (case lookup w (butlast p) of
               None \<Rightarrow> (-1, w\<lparr>errno := ENOENT\<rparr>)
             | Some (Reg m c) \<Rightarrow> (-1, w\<lparr>errno := ENOTDIR\<rparr>)
             | Some (Dir m) \<Rightarrow>
                 (fd, w\<lparr>fs := fs w @ [(p, Reg (mode mod 4096) [])],
                        fdt := fdt w @ [(fd, OFile p 0 O_WRONLY)]\<rparr>)))"

definition sys_close :: "world \<Rightarrow> int \<Rightarrow> int \<times> world" where
  "sys_close w fd =
     (case map_of (fdt w) fd of
        None \<Rightarrow> (-1, w\<lparr>errno := EBADF\<rparr>)
      | Some f \<Rightarrow> (0, w\<lparr>fdt := filter (\<lambda>(k, f). k \<noteq> fd) (fdt w)\<rparr>))"

subsection \<open>Directories\<close>

text \<open>
  \<open>mkdir(path, mode)\<close>: fails with \<open>EEXIST\<close> when the path names any node, and needs
  the parent to be an existing directory.
\<close>

definition sys_mkdir :: "world \<Rightarrow> string \<Rightarrow> nat \<Rightarrow> int \<times> world" where
  "sys_mkdir w path mode =
     (if path = [] then (-1, w\<lparr>errno := ENOENT\<rparr>)
      else
        let p = path_of path in
        case lookup w p of
          Some nd \<Rightarrow> (-1, w\<lparr>errno := EEXIST\<rparr>)
        | None \<Rightarrow>
            (case lookup w (butlast p) of
               None \<Rightarrow> (-1, w\<lparr>errno := ENOENT\<rparr>)
             | Some (Reg m c) \<Rightarrow> (-1, w\<lparr>errno := ENOTDIR\<rparr>)
             | Some (Dir m) \<Rightarrow> (0, w\<lparr>fs := fs w @ [(p, Dir (mode mod 4096))]\<rparr>)))"

text \<open>
  A directory stream (\<open>DIR*\<close>) is the list of the entry names still to be delivered.
  \<open>opendir\<close> yields the two pseudo-entries followed by the names of the children;
  \<open>readdir\<close> delivers the next name, or \<open>NULL\<close> at the end of the stream, and at the
  end of the stream it leaves \<open>errno\<close> as it was.
\<close>

definition children :: "world \<Rightarrow> path \<Rightarrow> string list" where
  "children w p = map (\<lambda>(q, nd). last q) (filter (\<lambda>(q, nd). q \<noteq> [] \<and> butlast q = p) (fs w))"

definition sys_opendir :: "world \<Rightarrow> string \<Rightarrow> string list option \<times> world" where
  "sys_opendir w path =
     (case resolve w path of
        Inl e \<Rightarrow> (None, w\<lparr>errno := errno_of e\<rparr>)
      | Inr (Reg m c) \<Rightarrow> (None, w\<lparr>errno := ENOTDIR\<rparr>)
      | Inr (Dir m) \<Rightarrow> (Some (''.'' # ''..'' # children w (path_of path)), w))"

definition sys_readdir :: "world \<Rightarrow> string list \<Rightarrow> string option \<times> string list \<times> world" where
  "sys_readdir w d = (case d of [] \<Rightarrow> (None, [], w) | e # d' \<Rightarrow> (Some e, d', w))"

subsection \<open>Canonical paths\<close>

text \<open>
  \<open>realpath(path, NULL)\<close>: the absolute path of an existing node, or \<open>NULL\<close> with
  \<open>errno\<close> set. There are no symbolic links in this world.
\<close>

definition canonical :: "path \<Rightarrow> string" where
  "canonical p = (if p = [] then ''/'' else concat (map (\<lambda>c. ''/'' @ c) p))"

definition sys_realpath :: "world \<Rightarrow> string \<Rightarrow> string option \<times> world" where
  "sys_realpath w path =
     (case resolve w path of
        Inl e \<Rightarrow> (None, w\<lparr>errno := errno_of e\<rparr>)
      | Inr nd \<Rightarrow> (Some (canonical (path_of path)), w))"

subsection \<open>Copying inside the kernel\<close>

text \<open>
  \<open>sendfile(out, inp, &offset, count)\<close> of Linux copies up to \<open>count\<close> bytes of a regular
  file, read at \<open>offset\<close> without moving the file offset of \<open>inp\<close>, to \<open>out\<close> at its file
  offset. The source must be a file that can be read at an offset (\<open>ESPIPE\<close> for the
  terminal). The result is the C return value and the new world.
\<close>

definition sys_sendfile :: "world \<Rightarrow> int \<Rightarrow> int \<Rightarrow> nat \<Rightarrow> nat \<Rightarrow> (int \<times> world) option" where
  "sys_sendfile w out inp offset count =
     (case script w of
        [] \<Rightarrow> None
      | r # rs \<Rightarrow>
          let w1 = w\<lparr>script := rs\<rparr> in
          Some (case r of
            Fail e \<Rightarrow> (-1, w1\<lparr>errno := errno_of e\<rparr>)
          | Xfer k \<Rightarrow>
              (case map_of (fdt w1) inp of
                 None \<Rightarrow> (-1, w1\<lparr>errno := EBADF\<rparr>)
               | Some OTty \<Rightarrow> (-1, w1\<lparr>errno := ESPIPE\<rparr>)
               | Some (OFile pi oi fli) \<Rightarrow>
                   if fli \<noteq> O_RDONLY then (-1, w1\<lparr>errno := EBADF\<rparr>)
                   else
                     (case map_of (fs w1) pi of
                        Some (Reg mi ci) \<Rightarrow>
                          let d = take (min k count) (drop offset ci) in
                          (case map_of (fdt w1) out of
                             None \<Rightarrow> (-1, w1\<lparr>errno := EBADF\<rparr>)
                           | Some OTty \<Rightarrow> (int (length d), w1)
                           | Some (OFile po oo flo) \<Rightarrow>
                               if flo \<noteq> O_WRONLY then (-1, w1\<lparr>errno := EBADF\<rparr>)
                               else
                                 (case map_of (fs w1) po of
                                    Some (Reg mo co) \<Rightarrow>
                                      let co' = take oo co @ replicate (oo - length co) (CHR 0x00)
                                                @ d @ drop (oo + length d) co
                                      in (int (length d),
                                          w1\<lparr>fs := update_alist po (Reg mo co') (fs w1),
                                             fdt := update_alist out (OFile po (oo + length d) flo) (fdt w1)\<rparr>)
                                  | _ \<Rightarrow> (-1, w1\<lparr>errno := EINVAL\<rparr>)))
                      | _ \<Rightarrow> (-1, w1\<lparr>errno := EINVAL\<rparr>)))))"

section \<open>Retry Transfer\<close>

text \<open>
  \<open>kk_posix_read_retry(inp, buf, buflen, &read_count)\<close>. The \<open>do ... while\<close> loop runs
  its body before it tests \<open>ofs < buflen\<close>, so \<open>read_loop\<close> is the body followed by the
  test. The result is the returned status, \<open>*read_count\<close>, the bytes stored at the
  start of \<open>buf\<close>, and the world.
\<close>

function read_loop ::
  "world \<Rightarrow> int \<Rightarrow> nat \<Rightarrow> nat \<Rightarrow> bytes \<Rightarrow> (int \<times> nat \<times> bytes \<times> world) option" where
  "read_loop w inp buflen ofs buf =
     (let todo = buflen - ofs;
          todo = (if todo > KK_SSIZE_MAX then KK_SSIZE_MAX else todo)
      in case sys_read w inp todo of
           None \<Rightarrow> None
         | Some (n, d, w') \<Rightarrow>
             if n < 0 then
               if errno w' \<noteq> EAGAIN \<and> errno w' \<noteq> EINTR then Some (errno w', ofs, buf, w')
               else if ofs < buflen then read_loop w' inp buflen ofs buf
               else Some (0, ofs, buf, w')
             else if n = 0 then Some (0, ofs, buf, w')
             else
               let ofs' = ofs + nat n; buf' = buf @ d
               in if ofs' < buflen then read_loop w' inp buflen ofs' buf'
                  else Some (0, ofs', buf', w'))"
  by pat_completeness auto
termination
  by (relation "measure (\<lambda>(w, inp, buflen, ofs, buf). length (script w))")
     (auto simp: sys_read_def Let_def split: list.splits sysres.splits option.splits
        ofile.splits node.splits if_splits)

declare read_loop.simps [simp del]

definition kk_posix_read_retry ::
  "world \<Rightarrow> int \<Rightarrow> nat \<Rightarrow> (int \<times> nat \<times> bytes \<times> world) option" where
  "kk_posix_read_retry w inp buflen = read_loop w inp buflen 0 []"

text \<open>
  \<open>kk_posix_write_retry(out, buf, len, &write_count)\<close>, with \<open>len\<close> the length of
  \<open>buf\<close>. The result is the returned status, \<open>*write_count\<close> and the world.
\<close>

function write_loop ::
  "world \<Rightarrow> int \<Rightarrow> bytes \<Rightarrow> nat \<Rightarrow> (int \<times> nat \<times> world) option" where
  "write_loop w out buf ofs =
     (let len = length buf;
          todo = len - ofs;
          todo = (if todo > KK_SSIZE_MAX then KK_SSIZE_MAX else todo)
      in case sys_write w out (take todo (drop ofs buf)) of
           None \<Rightarrow> None
         | Some (n, w') \<Rightarrow>
             if n < 0 then
               if errno w' \<noteq> EAGAIN \<and> errno w' \<noteq> EINTR then Some (errno w', ofs, w')
               else if ofs < len then write_loop w' out buf ofs
               else Some (0, ofs, w')
             else if n = 0 then Some (EIO, ofs, w')
             else
               let ofs' = ofs + nat n
               in if ofs' < len then write_loop w' out buf ofs'
                  else Some (0, ofs', w'))"
  by pat_completeness auto
termination
  by (relation "measure (\<lambda>(w, out, buf, ofs). length (script w))")
     (auto simp: sys_write_def Let_def split: list.splits sysres.splits option.splits
        ofile.splits node.splits if_splits)

declare write_loop.simps [simp del]

definition kk_posix_write_retry ::
  "world \<Rightarrow> int \<Rightarrow> bytes \<Rightarrow> (int \<times> nat \<times> world) option" where
  "kk_posix_write_retry w out buf = write_loop w out buf 0"

section \<open>Posix abstraction layer\<close>

text \<open>
  \<open>kk_posix_open\<close> returns \<open>errno\<close> when \<open>open\<close> fails, and the descriptor otherwise.
\<close>

definition kk_posix_open :: "world \<Rightarrow> string \<Rightarrow> int \<Rightarrow> int \<times> world" where
  "kk_posix_open w path mode =
     (let (f, w1) = sys_open w path mode
      in ((if f < 0 then errno w1 else f), w1))"

definition kk_posix_close :: "world \<Rightarrow> int \<Rightarrow> int \<times> world" where
  "kk_posix_close w f =
     (let (r, w1) = sys_close w f
      in ((if r < 0 then errno w1 else 0), w1))"

definition kk_posix_fstat :: "world \<Rightarrow> int \<Rightarrow> stat \<Rightarrow> int \<times> stat \<times> world" where
  "kk_posix_fstat w f st =
     (let (r, st', w1) = sys_fstat w f st
      in ((if r < 0 then errno w1 else 0), st', w1))"

text \<open>\<open>kk_posix_fsize(f, &fsize)\<close>: the status, \<open>*fsize\<close> and the world.\<close>

definition kk_posix_fsize :: "world \<Rightarrow> int \<Rightarrow> int \<times> nat \<times> world" where
  "kk_posix_fsize w f =
     (let fsize = 0;
          (err, st, w1) = kk_posix_fstat w f stat_zero
      in if err \<noteq> 0 then (err, fsize, w1)
         else (0, st_size st, w1))"

definition kk_posix_stat :: "world \<Rightarrow> string \<Rightarrow> stat \<Rightarrow> int \<times> stat \<times> world" where
  "kk_posix_stat w path st =
     (let err = 0;
          (r, st', w1) = sys_stat w path st;
          err = (if r < 0 then errno w1 else err);
          err = (if err < 0 then errno w1 else err)
      in (err, st', w1))"

section \<open>Text files\<close>

text \<open>
  Modelled from the spec: \<open>kk_string_convert_from_mutf8\<close> belongs to the string
  representation, which the specification leaves to a collaborator; the bytes read are
  taken as they are.
\<close>

definition kk_string_convert_from_mutf8 :: "bytes \<Rightarrow> bytes" where
  "kk_string_convert_from_mutf8 str = str"

text \<open>
  \<open>kk_os_read_text_file(path, &result, ctx)\<close>: the status, \<open>*result\<close> when it was
  assigned, and the world.
\<close>

definition kk_os_read_text_file :: "world \<Rightarrow> string \<Rightarrow> (int \<times> bytes option \<times> world) option" where
  "kk_os_read_text_file w path =
     (let (f, w1) = kk_posix_open w path O_RDONLY in
      if f < 0 then Some (errno w1, None, w1)
      else
        let (err, len, w2) = kk_posix_fsize w1 f in
        if err \<noteq> 0 then
          (let (r, w3) = kk_posix_close w2 f in Some (err, None, w3))
        else
          (case kk_posix_read_retry w2 f len of
             None \<Rightarrow> None
           | Some (err, nread, s, w3) \<Rightarrow>
               let (r, w4) = kk_posix_close w3 f in
               if err < 0 then Some (err, None, w4)
               else
                 let str = (if nread < len then take nread s else s)
                 in Some (0, Some (kk_string_convert_from_mutf8 str), w4)))"

definition kk_os_write_text_file :: "world \<Rightarrow> string \<Rightarrow> bytes \<Rightarrow> (int \<times> world) option" where
  "kk_os_write_text_file w path content =
     (let (f, w1) = kk_posix_open w path O_WRONLY in
      if f < 0 then Some (errno w1, w1)
      else
        let len = length content in
        case (if len > 0 then
                (case kk_posix_write_retry w1 f content of
                   None \<Rightarrow> None
                 | Some (err, nwritten, w2) \<Rightarrow>
                     Some ((if err = 0 \<and> nwritten < len then EIO else err), w2))
              else Some (0, w1)) of
          None \<Rightarrow> None
        | Some (err, w2) \<Rightarrow>
            let (r, w3) = kk_posix_close w2 f in Some (err, w3))"

section \<open>mkdir\<close>

text \<open>
  \<open>kk_os_ensure_dir\<close> walks a pointer \<open>p\<close> over the characters of the path, the
  terminating NUL included. \<open>i\<close> is the position of \<open>p\<close>; the string that \<open>cpath\<close>
  denotes while \<open>*p\<close> is overwritten with NUL is the prefix of length \<open>i\<close>.
  \<open>ensure_prefix\<close> is the block guarded by \<open>cpath[0] != 0\<close>: \<open>stat\<close> the prefix (the
  result of the call is ignored, \<open>st\<close> starts as zero) and \<open>mkdir\<close> it unless it is a
  directory; the result is the new value of \<open>err\<close>, which was 0.
\<close>

definition ensure_prefix :: "world \<Rightarrow> string \<Rightarrow> nat \<Rightarrow> int \<times> world" where
  "ensure_prefix w cpath mode =
     (let (r, st, w1) = sys_stat w cpath stat_zero;
          isdir = (st_mode st AND S_IFDIR \<noteq> 0)
      in if \<not> isdir then
           let (res, w2) = sys_mkdir w1 cpath mode
           in if res \<noteq> 0 \<and> errno w2 \<noteq> EEXIST then (errno w2, w2) else (0, w2)
         else (0, w1))"

function ensure_loop :: "world \<Rightarrow> string \<Rightarrow> nat \<Rightarrow> nat \<Rightarrow> int \<times> world" where
  "ensure_loop w cpath mode i =
     (let c = (if i < length cpath then cpath ! i else CHR 0x00);
          (err, w1) =
            (if c = CHR 0x00 \<or> c = CHR ''/'' \<or> c = CHR 0x5C then
               if take i cpath \<noteq> [] then ensure_prefix w (take i cpath) mode
               else (0, w)
             else (0, w))
      in if err = 0 \<and> c \<noteq> CHR 0x00 then ensure_loop w1 cpath mode (i + 1) else (err, w1))"
  by pat_completeness auto
termination
  by (relation "measure (\<lambda>(w, cpath, mode, i). length cpath - i)") (auto split: if_splits)

declare ensure_loop.simps [simp del]

definition kk_os_ensure_dir :: "world \<Rightarrow> string \<Rightarrow> int \<Rightarrow> int \<times> world" where
  "kk_os_ensure_dir w path mode =
     (let mode = (if mode < 0 then 493 else nat mode)
      in ensure_loop w path mode 0)"

section \<open>Copy File\<close>

text \<open>
  Modelled from the spec: \<open>kk_posix_creat\<close> is called by \<open>kk_os_copy_file\<close> but not
  defined in \<open>os.c\<close>. The specification says: create or overwrite the destination,
  inheriting the source's permission bits. The caller tests the result for \<open>< 0\<close>, so
  the result of \<open>creat\<close> is returned as it is.
\<close>

definition kk_posix_creat :: "world \<Rightarrow> string \<Rightarrow> nat \<Rightarrow> int \<times> world" where
  "kk_posix_creat w path mode = sys_creat w path mode"

text \<open>\<open>kk_malloc\<close> returns \<open>NULL\<close> exactly when the world is out of memory.\<close>

definition kk_malloc_fails :: "world \<Rightarrow> nat \<Rightarrow> bool" where
  "kk_malloc_fails w n = oom w"

text \<open>The generic loop of \<open>kk_posix_copy_file\<close>: \<open>while (todo > 0) { ... }\<close>.\<close>

function generic_copy_loop ::
  "world \<Rightarrow> int \<Rightarrow> int \<Rightarrow> nat \<Rightarrow> nat \<Rightarrow> (int \<times> world) option" where
  "generic_copy_loop w inp out buflen todo =
     (if todo > 0 then
        let toread = (if todo > buflen then buflen else todo)
        in case kk_posix_read_retry w inp toread of
             None \<Rightarrow> None
           | Some (err, read_count, buf, w1) \<Rightarrow>
               if err \<noteq> 0 \<or> read_count = 0 then Some (err, w1)
               else
                 (case kk_posix_write_retry w1 out (take read_count buf) of
                    None \<Rightarrow> None
                  | Some (err, write_count, w2) \<Rightarrow>
                      if err \<noteq> 0 then Some (err, w2)
                      else generic_copy_loop w2 inp out buflen (todo - read_count))
      else Some (0, w))"
  by pat_completeness auto
termination
  by (relation "measure (\<lambda>(w, inp, out, buflen, todo). todo)") auto

declare generic_copy_loop.simps [simp del]

text \<open>
  \<open>kk_posix_copy_file(inp, out, len, ctx)\<close>, the function that the preprocessor leaves
  on a Unix that is neither macOS nor Linux. Its first block, the \<open>copy_file_range\<close>
  loop with the fall through on \<open>EINVAL\<close>, stands under \<open>#if defined(COPY_FR_COPY)\<close>.
  Nothing in \<open>os.c\<close> defines that macro, and the block declares \<open>int err\<close> a second time
  in the scope of the function, so it cannot be compiled as it is written: the function
  is the buffered loop alone.
\<close>

definition kk_posix_copy_file :: "world \<Rightarrow> int \<Rightarrow> int \<Rightarrow> nat \<Rightarrow> (int \<times> world) option" where
  "kk_posix_copy_file w inp out len =
     (let buflen = 1024 * 1024;
          buflen = (if buflen > len then len else buflen)
      in if kk_malloc_fails w buflen then Some (ENOMEM, w)
         else generic_copy_loop w inp out buflen len)"

text \<open>
  \<open>kk_os_copy_file(from, to, preserve_mtime, ctx)\<close>. The contents are copied by
  \<open>sendfile\<close> in the Linux branch (one call, whose error is the status) and by
  \<open>kk_posix_copy_file\<close> in the branch for any other Unix but macOS; the macOS branch
  (\<open>fcopyfile\<close>) is not translated. The opening of the source, the \<open>fstat\<close>, the
  creation of the destination and the closing of both descriptors are shared by all
  branches. The world carries no timestamps, so \<open>futimens\<close> changes nothing and
  \<open>preserve_mtime\<close> has no effect here.
\<close>

datatype build = Linux | Other_unix

definition kk_os_copy_file ::
  "build \<Rightarrow> world \<Rightarrow> string \<Rightarrow> string \<Rightarrow> bool \<Rightarrow> (int \<times> world) option" where
  "kk_os_copy_file b w from to preserve_mtime =
     (let (inp, w1) = kk_posix_open w from O_RDONLY in
      if inp < 0 then Some (errno w1, w1)
      else
        let (r, finfo, w2) = sys_fstat w1 inp stat_zero in
        if r < 0 then
          (let (r, w3) = sys_close w2 inp in Some (errno w3, w3))
        else
          let (out, w3) = kk_posix_creat w2 to (st_mode finfo) in
          if out < 0 then
            (let (r, w4) = sys_close w3 inp in Some (errno w4, w4))
          else
            (case (case b of
                     Linux \<Rightarrow>
                       (case sys_sendfile w3 out inp 0 (st_size finfo) of
                          None \<Rightarrow> None
                        | Some (r, w4) \<Rightarrow> Some (if r < 0 then errno w4 else 0, w4))
                   | Other_unix \<Rightarrow> kk_posix_copy_file w3 inp out (st_size finfo)) of
               None \<Rightarrow> None
             | Some (err, w4) \<Rightarrow>
                 let (r, w5) = sys_close w4 inp;
                     (r, w6) = sys_close w5 out;
                     err = (if r = -1 then (if err = 0 then errno w6 else err) else err)
                 in Some (err, w6)))"

section \<open>Stat directory\<close>

definition kk_os_is_directory :: "world \<Rightarrow> string \<Rightarrow> bool \<times> world" where
  "kk_os_is_directory w path =
     (let (err, st, w1) = kk_posix_stat w path stat_zero
      in if err \<noteq> 0 then (False, w1)
         else (st_mode st AND S_IFDIR \<noteq> 0, w1))"

definition kk_os_is_file :: "world \<Rightarrow> string \<Rightarrow> bool \<times> world" where
  "kk_os_is_file w path =
     (let (err, st, w1) = kk_posix_stat w path stat_zero
      in if err \<noteq> 0 then (False, w1)
         else (st_mode st AND S_IFREG \<noteq> 0, w1))"

section \<open>List directory\<close>

text \<open>
  Modelled from the spec: the vector container of \<open>kklib\<close> is not part of the source
  here. The specification asks for pre-sized allocation, in-place element write and
  resizing to an exact count; a vector is the list of its boxed elements.
\<close>

datatype box = Box_int int | Box_string string | Box_null

definition kk_vector_empty :: "box list" where
  "kk_vector_empty = []"

definition kk_vector_alloc :: "nat \<Rightarrow> box \<Rightarrow> box list" where
  "kk_vector_alloc n def = replicate n def"

definition kk_vector_realloc :: "box list \<Rightarrow> nat \<Rightarrow> box \<Rightarrow> box list" where
  "kk_vector_realloc vec n def = take n vec @ replicate (n - length vec) def"

text \<open>
  \<open>os_findnext(d, &entry, &err)\<close>: the entry (\<open>None\<close> for \<open>NULL\<close>, and then the C
  result is \<open>false\<close>), the rest of the stream, \<open>*err\<close> and the world.
\<close>

definition os_findnext ::
  "world \<Rightarrow> string list \<Rightarrow> string option \<times> string list \<times> int \<times> world" where
  "os_findnext w d =
     (let (entry, d', w1) = sys_readdir w d;
          err = (if entry \<noteq> None \<or> errno w1 = ENOENT then 0 else errno w1)
      in (entry, d', err, w1))"

definition os_findfirst ::
  "world \<Rightarrow> string \<Rightarrow> string option \<times> string list \<times> int \<times> world" where
  "os_findfirst w path =
     (case sys_opendir w path of
        (None, w1) \<Rightarrow> (None, [], errno w1, w1)
      | (Some d, w1) \<Rightarrow> os_findnext w1 d)"

definition os_direntry_name :: "string \<Rightarrow> string" where
  "os_direntry_name dname = (if dname = ''.'' \<or> dname = ''..'' then [] else dname)"

text \<open>
  The \<open>do ... while (os_findnext(d, &entry, &err))\<close> loop of \<open>kk_os_list_directory\<close>:
  the result is \<open>err\<close>, \<open>count\<close>, the vector and the world when the loop is left.
\<close>

function list_loop ::
  "world \<Rightarrow> string list \<Rightarrow> string \<Rightarrow> nat \<Rightarrow> nat \<Rightarrow> box list \<Rightarrow> int \<times> nat \<times> box list \<times> world" where
  "list_loop w d entry count len vec =
     (let name = os_direntry_name entry;
          (count, len, vec) =
            (if name \<noteq> [] then
               let (len, vec) =
                     (if count = len then
                        let newlen = (if len > 1000 then len + 1000 else 2 * len)
                        in (newlen, kk_vector_realloc vec newlen (Box_int 0))
                      else (len, vec))
               in (count + 1, len, vec[count := Box_string name])
             else (count, len, vec))
      in case os_findnext w d of
           (Some entry', d', err, w') \<Rightarrow> list_loop w' d' entry' count len vec
         | (None, d', err, w') \<Rightarrow> (err, count, vec, w'))"
  by pat_completeness auto
termination
  by (relation "measure (\<lambda>(w, d, entry, count, len, vec). length d)")
     (auto simp: os_findnext_def sys_readdir_def split: list.splits)

declare list_loop.simps [simp del]

definition kk_os_list_directory :: "world \<Rightarrow> string \<Rightarrow> int \<times> box list \<times> world" where
  "kk_os_list_directory w dir =
     (case os_findfirst w dir of
        (None, d, err, w1) \<Rightarrow> (err, kk_vector_empty, w1)
      | (Some entry, d, err, w1) \<Rightarrow>
          let (err, count, vec, w2) = list_loop w1 d entry 0 100 (kk_vector_alloc 100 (Box_int 0))
          in (err, kk_vector_realloc vec count Box_null, w2))"

section \<open>Realpath and application path\<close>

definition kk_os_realpath :: "world \<Rightarrow> string \<Rightarrow> string \<times> world" where
  "kk_os_realpath w path =
     (case sys_realpath w path of
        (Some rpath, w1) \<Rightarrow> (rpath, w1)
      | (None, w1) \<Rightarrow> (path, w1))"

definition KK_PATH_SEP :: char where [simp]: "KK_PATH_SEP = CHR '':''"

text \<open>
  The loop of \<open>kk_os_searchpathx\<close>: \<open>p\<close> is the rest of \<open>paths\<close> from the pointer \<open>p\<close>
  on, so \<open>p < pend\<close> says that it is not empty.
\<close>

function searchpath_loop :: "world \<Rightarrow> string \<Rightarrow> string \<Rightarrow> string \<times> world" where
  "searchpath_loop w p fname =
     (if p \<noteq> [] then
        let plen = length (takeWhile (\<lambda>c. c \<noteq> KK_PATH_SEP) p);
            buf = take plen p @ ''/'' @ fname;
            p' = (if plen = length p then [] else drop (plen + 1) p);
            sfname = buf;
            (isfile, w1) = kk_os_is_file w sfname
        in if isfile then kk_os_realpath w1 sfname
           else searchpath_loop w1 p' fname
      else ([], w))"
  by pat_completeness auto
termination
  by (relation "measure (\<lambda>(w, p, fname). length p)") (auto split: if_splits)

declare searchpath_loop.simps [simp del]

definition kk_os_searchpathx :: "world \<Rightarrow> string option \<Rightarrow> string option \<Rightarrow> string \<times> world" where
  "kk_os_searchpathx w paths fname =
     (case (paths, fname) of
        (Some ps, Some fn) \<Rightarrow>
          if fn = [] then ([], w)
          else if kk_malloc_fails w (length ps + length fn + 2) then ([], w)
          else searchpath_loop w ps fn
      | _ \<Rightarrow> ([], w))"

text \<open>
  \<open>kk_os_app_path_generic\<close>, with \<open>ctx->argv\<close> and the value of \<open>getenv("PATH")\<close> as
  parameters.
\<close>

definition kk_os_app_path_generic :: "world \<Rightarrow> string list \<Rightarrow> string option \<Rightarrow> string \<times> world" where
  "kk_os_app_path_generic w argv path_env =
     (case argv of
        [] \<Rightarrow> ([], w)
      | p # rest \<Rightarrow>
          if p = [] then ([], w)
          else if hd p = CHR ''/'' then kk_os_realpath w p
          else if CHR ''/'' \<in> set p then kk_os_realpath w (''./'' @ p)
          else
            let (s, w1) = kk_os_searchpathx w path_env (Some p)
            in if s = [] then kk_os_realpath w1 p else (s, w1))"

section \<open>Notions used in the statements\<close>

text \<open>The size of one call: what is left to move, capped at \<open>KK_SSIZE_MAX\<close>.\<close>

definition chunk :: "nat \<Rightarrow> nat \<Rightarrow> nat" where
  "chunk len ofs = (if len - ofs > KK_SSIZE_MAX then KK_SSIZE_MAX else len - ofs)"

text \<open>
  A result of the script that is not a transient failure: the call moves bytes (possibly
  none) or fails for good. Each such result ends the loop or moves at least one byte.
\<close>

fun non_transient :: "sysres \<Rightarrow> bool" where
  "non_transient (Fail e) = (\<not> transient e)"
| "non_transient (Xfer k) = True"

text \<open>
  The calls of a transfer. A transfer of \<open>L\<close> bytes is a sequence of calls of \<open>read\<close> (or
  \<open>write\<close>), each asking for the bytes that remain, capped at \<open>KK_SSIZE_MAX\<close>.
  \<open>read_calls k w inp L = Some (m, b, w1)\<close> says that, starting in the world \<open>w\<close>, each of
  the first \<open>k\<close> calls was followed by another call: it failed with \<open>EINTR\<close> or \<open>EAGAIN\<close>
  while bytes remained, or it moved some but not all of the remaining bytes. These \<open>k\<close>
  calls moved the \<open>m\<close> bytes \<open>b\<close> and left the world \<open>w1\<close>. The result is \<open>None\<close> when one of
  the first \<open>k\<close> calls ended the transfer, or was never made.
\<close>

fun read_calls :: "nat \<Rightarrow> world \<Rightarrow> int \<Rightarrow> nat \<Rightarrow> (nat \<times> bytes \<times> world) option" where
  "read_calls 0 w inp L = Some (0, [], w)"
| "read_calls (Suc k) w inp L =
     (case read_calls k w inp L of
        None \<Rightarrow> None
      | Some (m, b, w1) \<Rightarrow>
          (case sys_read w1 inp (chunk L m) of
             None \<Rightarrow> None
           | Some (n, d, w2) \<Rightarrow>
               if n < 0 then
                 (if (errno w2 = EINTR \<or> errno w2 = EAGAIN) \<and> m < L then Some (m, b, w2) else None)
               else if 0 < n \<and> m + nat n < L then Some (m + nat n, b @ d, w2)
               else None))"

declare read_calls.simps(2) [simp del]

fun write_calls :: "nat \<Rightarrow> world \<Rightarrow> int \<Rightarrow> bytes \<Rightarrow> (nat \<times> world) option" where
  "write_calls 0 w out buf = Some (0, w)"
| "write_calls (Suc k) w out buf =
     (case write_calls k w out buf of
        None \<Rightarrow> None
      | Some (m, w1) \<Rightarrow>
          (case sys_write w1 out (take (chunk (length buf) m) (drop m buf)) of
             None \<Rightarrow> None
           | Some (n, w2) \<Rightarrow>
               if n < 0 then
                 (if (errno w2 = EINTR \<or> errno w2 = EAGAIN) \<and> m < length buf then Some (m, w2) else None)
               else if 0 < n \<and> m + nat n < length buf then Some (m + nat n, w2)
               else None))"

declare write_calls.simps(2) [simp del]

text \<open>
  What a transfer leaves to the program: the status, the count, the bytes, the files and
  the descriptors. (The value of \<open>errno\<close>, which a successful call does not reset, and the
  results that the script still holds are left out.)
\<close>

definition read_outcome ::
  "(int \<times> nat \<times> bytes \<times> world) option \<Rightarrow>
     (int \<times> nat \<times> bytes \<times> (path \<times> node) list \<times> (int \<times> ofile) list) option" where
  "read_outcome r = map_option (\<lambda>(err, moved, b, w'). (err, moved, b, fs w', fdt w')) r"

definition write_outcome ::
  "(int \<times> nat \<times> world) option \<Rightarrow>
     (int \<times> nat \<times> (path \<times> node) list \<times> (int \<times> ofile) list) option" where
  "write_outcome r = map_option (\<lambda>(err, moved, w'). (err, moved, fs w', fdt w')) r"

text \<open>
  A result is \<open>progressing\<close> when it grants the call at least one byte, and \<open>benign\<close> when
  it is progressing or a transient failure: a sequence of interrupted calls interleaved
  with progressing ones holds benign results only.
\<close>

fun progressing :: "sysres \<Rightarrow> bool" where
  "progressing (Xfer k) = (0 < k)"
| "progressing (Fail e) = False"

fun benign :: "sysres \<Rightarrow> bool" where
  "benign (Xfer k) = (0 < k)"
| "benign (Fail e) = transient e"

text \<open>The descriptor is open on the terminal, or for writing on a regular file.\<close>

definition writable :: "world \<Rightarrow> int \<Rightarrow> bool" where
  "writable w fd =
     (case map_of (fdt w) fd of
        None \<Rightarrow> False
      | Some OTty \<Rightarrow> True
      | Some (OFile p off fl) \<Rightarrow>
          fl = O_WRONLY \<and> (case map_of (fs w) p of Some (Reg m c) \<Rightarrow> True | _ \<Rightarrow> False))"

text \<open>The names that \<open>os_direntry_name\<close> lets through.\<close>

definition real_name :: "string \<Rightarrow> bool" where
  "real_name n = (os_direntry_name n \<noteq> [])"

text \<open>The part of the loop body that stores one name, growing the vector when it is full.\<close>

definition push_name :: "string \<Rightarrow> nat \<Rightarrow> nat \<Rightarrow> box list \<Rightarrow> nat \<times> nat \<times> box list" where
  "push_name entry count len vec =
     (if os_direntry_name entry \<noteq> [] then
        let g = (if count = len then
                   (if len > 1000 then len + 1000 else 2 * len,
                    kk_vector_realloc vec (if len > 1000 then len + 1000 else 2 * len) (Box_int 0))
                 else (len, vec))
        in (count + 1, fst g, (snd g)[count := Box_string (os_direntry_name entry)])
      else (count, len, vec))"

text \<open>The candidate exists as a regular file.\<close>

definition is_reg :: "world \<Rightarrow> string \<Rightarrow> bool" where
  "is_reg w s = (case resolve w s of Inr (Reg m c) \<Rightarrow> True | _ \<Rightarrow> False)"

text \<open>The value of a PATH-like variable whose segments are \<open>segs\<close>.\<close>

fun join_paths :: "string list \<Rightarrow> string" where
  "join_paths [] = []"
| "join_paths [s] = s"
| "join_paths (s # ss) = s @ '':'' @ join_paths ss"

text \<open>Which paths exist, and which of them are directories.\<close>

definition kinds :: "world \<Rightarrow> path \<Rightarrow> bool option" where
  "kinds w p = map_option (\<lambda>nd. case nd of Dir m \<Rightarrow> True | Reg m c \<Rightarrow> False) (lookup w p)"

subsection \<open>Worlds for concrete runs\<close>

text \<open>
  \<open>tty_world\<close> is a process with an empty file system whose three standard descriptors
  are open on the terminal. \<open>file_world c\<close> has in addition a file \<open>f\<close> with contents
  \<open>c\<close>, open for reading on descriptor 3.
\<close>

definition tty_world :: "sysres list \<Rightarrow> world" where
  "tty_world scr = \<lparr>fs = [], fdt = [(0, OTty), (1, OTty), (2, OTty)], errno = 0, script = scr, oom = False\<rparr>"

definition file_world :: "bytes \<Rightarrow> sysres list \<Rightarrow> world" where
  "file_world c scr = \<lparr>fs = [([''f''], Reg 420 c)], fdt = [(0, OTty), (1, OTty), (2, OTty), (3, OFile [''f''] 0 O_RDONLY)], errno = 0, script = scr, oom = False\<rparr>"

text \<open>A world in which \<open>a\<close> and \<open>a/b\<close> are directories and \<open>a/b/c\<close> is a regular file.\<close>

definition abc_world :: world where
  "abc_world = \<lparr>fs = [([''a''], Dir 493), ([''a'', ''b''], Dir 493), ([''a'', ''b'', ''c''], Reg 420 ''x'')],
     fdt = [(0, OTty), (1, OTty), (2, OTty)], errno = 0, script = [], oom = False\<rparr>"

text \<open>A world with directories \<open>/x\<close> and \<open>/y\<close> and a regular file \<open>/y/tool\<close>.\<close>

definition tool_world :: world where
  "tool_world = \<lparr>fs = [([''x''], Dir 493), ([''y''], Dir 493), ([''y'', ''tool''], Reg 493 ''#!'')],
     fdt = [(0, OTty), (1, OTty), (2, OTty)], errno = 0, script = [], oom = False\<rparr>"

text \<open>
  A world with an empty directory \<open>d\<close> and a regular file \<open>f\<close>, with \<open>errno\<close> as given.
\<close>

definition dir_world :: "int \<Rightarrow> world" where
  "dir_world e = \<lparr>fs = [([''d''], Dir 493), ([''f''], Reg 420 ''x'')],
     fdt = [(0, OTty), (1, OTty), (2, OTty)], errno = e, script = [], oom = False\<rparr>"

section \<open>The contract of \<open>read\<close> and \<open>write\<close>\<close>

lemma errno_of_pos: "0 < errno_of e"
  by (cases e) simp_all

lemma map_of_update_alist: "map_of (update_alist k v xs) = (map_of xs)(k \<mapsto> v)"
  by (induction xs) auto

lemma errno_of_transient: "(errno_of e = EAGAIN \<or> errno_of e = EINTR) = transient e"
  by (cases e) simp_all

lemma errno_of_transientD:
  "errno_of e = 11 \<Longrightarrow> transient e" "errno_of e = 4 \<Longrightarrow> transient e"
  by (cases e; simp)+

lemma sys_write_script:
  "sys_write w fd d = Some (n, w') \<Longrightarrow> script w \<noteq> [] \<and> script w' = tl (script w)"
  by (auto simp: sys_write_def Let_def split: list.splits sysres.splits option.splits
        ofile.splits node.splits if_splits)

lemma sys_write_bound:
  "sys_write w fd d = Some (n, w') \<Longrightarrow> n \<le> int (length d)"
  by (auto simp: sys_write_def Let_def split: list.splits sysres.splits option.splits
        ofile.splits node.splits if_splits)

lemma sys_write_fail:
  "sys_write w fd d = Some (n, w') \<Longrightarrow> n < 0 \<Longrightarrow> 0 < errno w'"
  by (auto simp: sys_write_def Let_def errno_of_pos split: list.splits sysres.splits option.splits
        ofile.splits node.splits if_splits)

lemma chunk_le: "chunk len ofs \<le> len - ofs"
  by (simp add: chunk_def)

lemma chunk_pos: "ofs < len \<Longrightarrow> 0 < chunk len ofs"
  by (simp add: chunk_def KK_SSIZE_MAX_def)

lemma write_loop_step:
  "write_loop w out buf ofs =
     (case sys_write w out (take (chunk (length buf) ofs) (drop ofs buf)) of
        None \<Rightarrow> None
      | Some (n, w') \<Rightarrow>
          if n < 0 then
            if errno w' \<noteq> EAGAIN \<and> errno w' \<noteq> EINTR then Some (errno w', ofs, w')
            else if ofs < length buf then write_loop w' out buf ofs
            else Some (0, ofs, w')
          else if n = 0 then Some (EIO, ofs, w')
          else if ofs + nat n < length buf then write_loop w' out buf (ofs + nat n)
          else Some (0, ofs + nat n, w'))"
  by (subst write_loop.simps) (auto simp: Let_def chunk_def split: option.splits)

lemma write_loop_inv:
  "write_loop w out buf ofs = Some (err, moved, w') \<Longrightarrow> ofs \<le> length buf \<Longrightarrow>
     ofs \<le> moved \<and> moved \<le> length buf \<and> err \<noteq> EINTR \<and> err \<noteq> EAGAIN \<and>
     (err = 0 \<longrightarrow> moved = length buf) \<and>
     (ofs < length buf \<longrightarrow> moved = length buf \<longrightarrow> err = 0)"
proof (induction "script w" arbitrary: w ofs)
  case Nil
  then show ?case
    by (subst (asm) write_loop_step) (simp add: sys_write_def)
next
  case (Cons r rs)
  let ?d = "take (chunk (length buf) ofs) (drop ofs buf)"
  obtain n w1 where sw: "sys_write w out ?d = Some (n, w1)"
    using Cons.prems(1) by (subst (asm) write_loop_step) (auto split: option.splits)
  have rs: "rs = script w1"
    using sys_write_script [OF sw] Cons.hyps(2) [symmetric] by simp
  have nb: "nat n \<le> length buf - ofs"
    using sys_write_bound [OF sw] chunk_le [of "length buf" ofs] by simp
  note step = Cons.prems(1) [unfolded write_loop_step [of w out buf ofs] sw, simplified]
  note IH = Cons.hyps(1) [OF rs]
  show ?case
  proof (cases "n < 0")
    case neg: True
    show ?thesis
    proof (cases "errno w1 \<noteq> EAGAIN \<and> errno w1 \<noteq> EINTR")
      case True
      with neg step sys_write_fail [OF sw neg] Cons.prems(2) show ?thesis by auto
    next
      case tr: False
      show ?thesis
      proof (cases "ofs < length buf")
        case True
        have "write_loop w1 out buf ofs = Some (err, moved, w')"
          using step neg tr True by auto
        from IH [OF this Cons.prems(2)] show ?thesis by auto
      next
        case False
        with neg tr step Cons.prems(2) show ?thesis by auto
      qed
    qed
  next
    case nn: False
    show ?thesis
    proof (cases "n = 0")
      case True
      have "chunk (length buf) ofs = 0 \<or> 0 < chunk (length buf) ofs" by auto
      with True step Cons.prems(2) show ?thesis by auto
    next
      case pos: False
      show ?thesis
      proof (cases "ofs + nat n < length buf")
        case True
        have "write_loop w1 out buf (ofs + nat n) = Some (err, moved, w')"
          using step nn pos True by auto
        from IH [OF this] True nn pos show ?thesis by auto
      next
        case False
        with nn pos step nb Cons.prems(2) show ?thesis by auto
      qed
    qed
  qed
qed

lemma sys_read_script:
  "sys_read w fd todo = Some (n, d, w') \<Longrightarrow> script w \<noteq> [] \<and> script w' = tl (script w)"
  by (auto simp: sys_read_def Let_def split: list.splits sysres.splits option.splits
        ofile.splits node.splits if_splits)

lemma sys_read_bound:
  "sys_read w fd todo = Some (n, d, w') \<Longrightarrow> n \<le> int todo \<and> (if n < 0 then d = [] else length d = nat n)"
  by (auto simp: sys_read_def Let_def split: list.splits sysres.splits option.splits
        ofile.splits node.splits if_splits)

lemma sys_read_fail:
  "sys_read w fd todo = Some (n, d, w') \<Longrightarrow> n < 0 \<Longrightarrow> 0 < errno w'"
  by (auto simp: sys_read_def Let_def errno_of_pos split: list.splits sysres.splits option.splits
        ofile.splits node.splits if_splits)

lemma read_loop_step:
  "read_loop w inp buflen ofs buf =
     (case sys_read w inp (chunk buflen ofs) of
        None \<Rightarrow> None
      | Some (n, d, w') \<Rightarrow>
          if n < 0 then
            if errno w' \<noteq> EAGAIN \<and> errno w' \<noteq> EINTR then Some (errno w', ofs, buf, w')
            else if ofs < buflen then read_loop w' inp buflen ofs buf
            else Some (0, ofs, buf, w')
          else if n = 0 then Some (0, ofs, buf, w')
          else if ofs + nat n < buflen then read_loop w' inp buflen (ofs + nat n) (buf @ d)
          else Some (0, ofs + nat n, buf @ d, w'))"
  by (subst read_loop.simps) (auto simp: Let_def chunk_def split: option.splits)

lemma read_loop_inv:
  "read_loop w inp buflen ofs buf = Some (err, moved, buf', w') \<Longrightarrow> ofs \<le> buflen \<Longrightarrow>
     ofs \<le> moved \<and> moved \<le> buflen \<and> err \<noteq> EINTR \<and> err \<noteq> EAGAIN \<and>
     length buf' = length buf + (moved - ofs)"
proof (induction "script w" arbitrary: w ofs buf)
  case Nil
  then show ?case
    by (subst (asm) read_loop_step) (simp add: sys_read_def)
next
  case (Cons r rs)
  obtain n d w1 where sr: "sys_read w inp (chunk buflen ofs) = Some (n, d, w1)"
    using Cons.prems(1) by (subst (asm) read_loop_step) (auto split: option.splits)
  have rs: "rs = script w1"
    using sys_read_script [OF sr] Cons.hyps(2) [symmetric] by simp
  have nb: "nat n \<le> buflen - ofs" and dl: "if n < 0 then d = [] else length d = nat n"
    using sys_read_bound [OF sr] chunk_le [of buflen ofs] by auto
  note step = Cons.prems(1) [unfolded read_loop_step [of w inp buflen ofs buf] sr, simplified]
  note IH = Cons.hyps(1) [OF rs]
  show ?case
  proof (cases "n < 0")
    case neg: True
    show ?thesis
    proof (cases "errno w1 \<noteq> EAGAIN \<and> errno w1 \<noteq> EINTR")
      case True
      with neg step sys_read_fail [OF sr neg] Cons.prems(2) show ?thesis by auto
    next
      case tr: False
      show ?thesis
      proof (cases "ofs < buflen")
        case True
        have "read_loop w1 inp buflen ofs buf = Some (err, moved, buf', w')"
          using step neg tr True by auto
        from IH [OF this Cons.prems(2)] show ?thesis by auto
      next
        case False
        with neg tr step Cons.prems(2) show ?thesis by auto
      qed
    qed
  next
    case nn: False
    show ?thesis
    proof (cases "n = 0")
      case True
      have res: "err = 0" "moved = ofs" "buf' = buf" "w' = w1" using step True by auto
      with Cons.prems(2) show ?thesis by auto
    next
      case pos: False
      show ?thesis
      proof (cases "ofs + nat n < buflen")
        case True
        have "read_loop w1 inp buflen (ofs + nat n) (buf @ d) = Some (err, moved, buf', w')"
          using step nn pos True by auto
        from IH [OF this] True nn pos dl show ?thesis by auto
      next
        case False
        with nn pos step nb dl Cons.prems(2) show ?thesis by auto
      qed
    qed
  qed
qed

lemma sys_write_transient:
  "sys_write w fd d = Some (n, w') \<Longrightarrow> n < 0 \<Longrightarrow> errno w' = EAGAIN \<or> errno w' = EINTR \<Longrightarrow>
     \<not> non_transient (hd (script w))"
  by (auto simp: sys_write_def Let_def dest: errno_of_transientD split: list.splits sysres.splits option.splits
        ofile.splits node.splits if_splits)

lemma sys_read_transient:
  "sys_read w fd todo = Some (n, d, w') \<Longrightarrow> n < 0 \<Longrightarrow> errno w' = EAGAIN \<or> errno w' = EINTR \<Longrightarrow>
     \<not> non_transient (hd (script w))"
  by (auto simp: sys_read_def Let_def dest: errno_of_transientD split: list.splits sysres.splits option.splits
        ofile.splits node.splits if_splits)

lemma sys_write_Some: "script w \<noteq> [] \<Longrightarrow> \<exists>n w'. sys_write w fd d = Some (n, w')"
  by (cases "script w") (auto simp: sys_write_def Let_def split: sysres.splits option.splits
        ofile.splits node.splits)

lemma sys_read_Some: "script w \<noteq> [] \<Longrightarrow> \<exists>n d w'. sys_read w fd todo = Some (n, d, w')"
  by (cases "script w") (auto simp: sys_read_def Let_def split: sysres.splits option.splits
        ofile.splits node.splits)

lemma write_loop_returns:
  "length buf - ofs \<le> length (filter non_transient (script w)) \<Longrightarrow> 0 < length (filter non_transient (script w)) \<Longrightarrow>
     \<exists>r. write_loop w out buf ofs = Some r"
proof (induction "script w" arbitrary: w ofs)
  case Nil
  then show ?case by simp
next
  case (Cons r rs)
  let ?d = "take (chunk (length buf) ofs) (drop ofs buf)"
  have ne: "script w \<noteq> []" using Cons.hyps(2) [symmetric] by simp
  obtain n w1 where sw: "sys_write w out ?d = Some (n, w1)"
    using sys_write_Some [OF ne] by blast
  have rs: "rs = script w1" and scr: "script w = r # script w1"
    using sys_write_script [OF sw] Cons.hyps(2) [symmetric] by auto
  note IH = Cons.hyps(1) [OF rs]
  show ?case
  proof (cases "n < 0 \<and> (errno w1 = EAGAIN \<or> errno w1 = EINTR) \<and> ofs < length buf")
    case True
    then have "\<not> non_transient r" using sys_write_transient [OF sw] scr by auto
    then have "filter non_transient (script w) = filter non_transient (script w1)" using scr by simp
    with Cons.prems have "\<exists>r. write_loop w1 out buf ofs = Some r" by (intro IH) auto
    with True sw show ?thesis by (subst write_loop_step) auto
  next
    case other: False
    show ?thesis
    proof (cases "0 < n \<and> ofs + nat n < length buf")
      case True
      have "length (filter non_transient (script w)) \<le> Suc (length (filter non_transient (script w1)))"
        using scr by simp
      with Cons.prems True have "\<exists>r. write_loop w1 out buf (ofs + nat n) = Some r"
        by (intro IH) auto
      with True sw show ?thesis by (subst write_loop_step) auto
    next
      case False
      with other sw show ?thesis by (subst write_loop_step) auto
    qed
  qed
qed

lemma read_loop_returns:
  "buflen - ofs \<le> length (filter non_transient (script w)) \<Longrightarrow> 0 < length (filter non_transient (script w)) \<Longrightarrow>
     \<exists>r. read_loop w inp buflen ofs buf = Some r"
proof (induction "script w" arbitrary: w ofs buf)
  case Nil
  then show ?case by simp
next
  case (Cons r rs)
  have ne: "script w \<noteq> []" using Cons.hyps(2) [symmetric] by simp
  obtain n d w1 where sr: "sys_read w inp (chunk buflen ofs) = Some (n, d, w1)"
    using sys_read_Some [OF ne] by blast
  have rs: "rs = script w1" and scr: "script w = r # script w1"
    using sys_read_script [OF sr] Cons.hyps(2) [symmetric] by auto
  note IH = Cons.hyps(1) [OF rs]
  show ?case
  proof (cases "n < 0 \<and> (errno w1 = EAGAIN \<or> errno w1 = EINTR) \<and> ofs < buflen")
    case True
    then have "\<not> non_transient r" using sys_read_transient [OF sr] scr by auto
    then have "filter non_transient (script w) = filter non_transient (script w1)" using scr by simp
    with Cons.prems have "\<exists>r. read_loop w1 inp buflen ofs buf = Some r" by (intro IH) auto
    with True sr show ?thesis by (subst read_loop_step) auto
  next
    case other: False
    show ?thesis
    proof (cases "0 < n \<and> ofs + nat n < buflen")
      case True
      have "length (filter non_transient (script w)) \<le> Suc (length (filter non_transient (script w1)))"
        using scr by simp
      with Cons.prems True have "\<exists>r. read_loop w1 inp buflen (ofs + nat n) (buf @ d) = Some r"
        by (intro IH) auto
      with True sr show ?thesis by (subst read_loop_step) auto
    next
      case False
      with other sr show ?thesis by (subst read_loop_step) auto
    qed
  qed
qed

lemma read_loop_script:
  "read_loop w inp buflen ofs buf = Some (err, moved, buf', w') \<Longrightarrow>
     length (script w') < length (script w)"
proof (induction "script w" arbitrary: w ofs buf)
  case Nil
  then show ?case
    by (subst (asm) read_loop_step) (simp add: sys_read_def)
next
  case (Cons r rs)
  obtain n d w1 where sr: "sys_read w inp (chunk buflen ofs) = Some (n, d, w1)"
    using Cons.prems by (subst (asm) read_loop_step) (auto split: option.splits)
  have rs: "rs = script w1" and len: "length (script w) = Suc (length (script w1))"
    using sys_read_script [OF sr] Cons.hyps(2) [symmetric] by auto
  have "w' = w1 \<or> (\<exists>ofs' buf1. read_loop w1 inp buflen ofs' buf1 = Some (err, moved, buf', w'))"
    using Cons.prems unfolding read_loop_step [of w inp buflen ofs buf] sr
    by (auto split: if_splits)
  then show ?case
  proof
    assume "w' = w1"
    with len show ?thesis by simp
  next
    assume "\<exists>ofs' buf1. read_loop w1 inp buflen ofs' buf1 = Some (err, moved, buf', w')"
    then obtain ofs' buf1 where "read_loop w1 inp buflen ofs' buf1 = Some (err, moved, buf', w')"
      by blast
    from Cons.hyps(1) [OF rs this] len show ?thesis by simp
  qed
qed

lemma write_loop_script:
  "write_loop w out buf ofs = Some (err, moved, w') \<Longrightarrow>
     length (script w') < length (script w)"
proof (induction "script w" arbitrary: w ofs)
  case Nil
  then show ?case
    by (subst (asm) write_loop_step) (simp add: sys_write_def)
next
  case (Cons r rs)
  obtain n w1 where sw: "sys_write w out (take (chunk (length buf) ofs) (drop ofs buf)) = Some (n, w1)"
    using Cons.prems by (subst (asm) write_loop_step) (auto split: option.splits)
  have rs: "rs = script w1" and len: "length (script w) = Suc (length (script w1))"
    using sys_write_script [OF sw] Cons.hyps(2) [symmetric] by auto
  have "w' = w1 \<or> (\<exists>ofs'. write_loop w1 out buf ofs' = Some (err, moved, w'))"
    using Cons.prems unfolding write_loop_step [of w out buf ofs] sw
    by (auto split: if_splits)
  then show ?case
  proof
    assume "w' = w1"
    with len show ?thesis by simp
  next
    assume "\<exists>ofs'. write_loop w1 out buf ofs' = Some (err, moved, w')"
    then obtain ofs' where "write_loop w1 out buf ofs' = Some (err, moved, w')"
      by blast
    from Cons.hyps(1) [OF rs this] len show ?thesis by simp
  qed
qed

subsection \<open>Properties of Retry Transfer\<close>

text \<open>
  An endless run of transient failures is the one case in which the loops do not
  return: as long as the script holds nothing but \<open>EINTR\<close> and \<open>EAGAIN\<close>, and bytes
  remain, the loop uses up the whole script.
\<close>

lemma write_loop_starves:
  "\<forall>r \<in> set (script w). \<not> non_transient r \<Longrightarrow> ofs < length buf \<Longrightarrow> write_loop w out buf ofs = None"
proof (induction "script w" arbitrary: w)
  case Nil
  then show ?case by (subst write_loop_step) (simp add: sys_write_def)
next
  case (Cons r rs)
  from Cons.hyps(2) [symmetric] Cons.prems(1) obtain e where r: "r = Fail e" "transient e"
    by (cases r) auto
  let ?w1 = "w\<lparr>script := rs, errno := errno_of e\<rparr>"
  have sw: "sys_write w out (take (chunk (length buf) ofs) (drop ofs buf)) = Some (-1, ?w1)"
    using Cons.hyps(2) [symmetric] r by (simp add: sys_write_def)
  have "write_loop ?w1 out buf ofs = None"
    using Cons.prems Cons.hyps(2) [symmetric] by (intro Cons.hyps(1)) auto
  with sw r(2) errno_of_transient [of e] Cons.prems(2) show ?case
    by (subst write_loop_step) auto
qed

text \<open>
  C3, as the code has it. When the write loop returns status 0, all bytes were moved.
  For a request of at least one byte the converse holds too: the bytes moved equal the
  requested length exactly when the status is 0, and a nonzero status means that
  strictly fewer bytes were moved. (For an empty request the converse fails, see the
  counterexample: the callers never pass one.)
\<close>

theorem write_retry_postcondition:
  assumes "kk_posix_write_retry w out buf = Some (err, moved, w')"
  shows "(err = 0 \<longrightarrow> moved = length buf) \<and>
         (buf \<noteq> [] \<longrightarrow> (moved = length buf \<longleftrightarrow> err = 0)) \<and>
         (buf \<noteq> [] \<longrightarrow> err \<noteq> 0 \<longrightarrow> moved < length buf)"
  using write_loop_inv [of w out buf 0 err moved w'] assms
  by (auto simp: kk_posix_write_retry_def)

theorem write_retry_postcondition_witness:
  "kk_posix_write_retry (tty_world [Fail E_INTR, Xfer 1, Xfer 9]) 1 ''abc''
     = Some (0, 3, (tty_world [])\<lparr>errno := EINTR\<rparr>)
   \<and> ''abc'' \<noteq> [] \<and> (3 = length ''abc'' \<longleftrightarrow> (0::int) = 0)"
proof -
  have run: "kk_posix_write_retry (tty_world [Fail E_INTR, Xfer 1, Xfer 9]) 1 ''abc''
     = Some (0, 3, (tty_world [])\<lparr>errno := EINTR\<rparr>)"
    by (simp add: kk_posix_write_retry_def write_loop_step chunk_def KK_SSIZE_MAX_def sys_write_def tty_world_def)
  from write_retry_postcondition [OF run] run show ?thesis by simp
qed

text \<open>
  C3 as stated fails for a request of zero bytes: the body of the \<open>do ... while\<close> loop
  runs once, \<open>write\<close> returns 0, and the loop reports \<open>EIO\<close> although the 0 bytes
  moved equal the 0 bytes requested.
\<close>

theorem write_retry_empty_counterexample:
  "kk_posix_write_retry (tty_world [Xfer 8]) 1 [] = Some (EIO, 0, tty_world [])
   \<and> (0::nat) = length ([]::bytes) \<and> EIO \<noteq> 0"
  by (simp add: kk_posix_write_retry_def write_loop_step chunk_def KK_SSIZE_MAX_def sys_write_def tty_world_def)

subsection \<open>The calls of a transfer\<close>

lemma read_calls_SucD:
  "read_calls (Suc k) w inp L = Some (m', b', w2) \<Longrightarrow>
     \<exists>m b w1 n d. read_calls k w inp L = Some (m, b, w1) \<and>
        sys_read w1 inp (chunk L m) = Some (n, d, w2) \<and>
        (n < 0 \<and> (errno w2 = EINTR \<or> errno w2 = EAGAIN) \<and> m < L \<and> m' = m \<and> b' = b \<or>
         0 < n \<and> m + nat n < L \<and> m' = m + nat n \<and> b' = b @ d)"
  by (auto simp: read_calls.simps(2) split: option.splits if_splits)

lemma read_calls_again:
  "read_calls k w inp L = Some (m, b, w1) \<Longrightarrow> sys_read w1 inp (chunk L m) = Some (n, d, w2) \<Longrightarrow>
     n < 0 \<Longrightarrow> errno w2 = EINTR \<or> errno w2 = EAGAIN \<Longrightarrow> m < L \<Longrightarrow>
     read_calls (Suc k) w inp L = Some (m, b, w2)"
  by (auto simp: read_calls.simps(2))

lemma read_calls_more:
  "read_calls k w inp L = Some (m, b, w1) \<Longrightarrow> sys_read w1 inp (chunk L m) = Some (n, d, w2) \<Longrightarrow>
     0 < n \<Longrightarrow> m + nat n < L \<Longrightarrow>
     read_calls (Suc k) w inp L = Some (m + nat n, b @ d, w2)"
  by (auto simp: read_calls.simps(2))

lemma read_calls_loop:
  "read_calls k w inp L = Some (m, b, w1) \<Longrightarrow> read_loop w1 inp L m b = read_loop w inp L 0 []"
proof (induction k arbitrary: m b w1)
  case 0
  then show ?case by simp
next
  case (Suc k)
  from read_calls_SucD [OF Suc.prems] obtain m0 b0 w0 n d where
    c: "read_calls k w inp L = Some (m0, b0, w0)" and
    s: "sys_read w0 inp (chunk L m0) = Some (n, d, w1)" and
    k: "n < 0 \<and> (errno w1 = EINTR \<or> errno w1 = EAGAIN) \<and> m0 < L \<and> m = m0 \<and> b = b0 \<or>
         0 < n \<and> m0 + nat n < L \<and> m = m0 + nat n \<and> b = b0 @ d"
    by blast
  have "read_loop w0 inp L m0 b0 = read_loop w1 inp L m b"
    using s k by (subst read_loop_step) auto
  with Suc.IH [OF c] show ?case by simp
qed

lemma read_calls_inv:
  assumes "read_calls k w inp L = Some (m, b, w1)"
  shows "(k = 0 \<and> m = 0 \<and> b = [] \<and> w1 = w) \<or> m < L"
proof (cases k)
  case 0
  with assms show ?thesis by simp
next
  case (Suc j)
  with assms have "read_calls (Suc j) w inp L = Some (m, b, w1)" by simp
  from read_calls_SucD [OF this] show ?thesis by auto
qed

lemma read_loop_calls:
  "read_calls k w inp L = Some (m, b, w1) \<Longrightarrow>
   read_loop w1 inp L m b = Some (err, moved, rbuf, w') \<Longrightarrow>
     \<exists>k m b w1 n d. read_calls k w inp L = Some (m, b, w1) \<and>
        sys_read w1 inp (chunk L m) = Some (n, d, w') \<and> moved = m + nat n \<and> rbuf = b @ d \<and>
        (n < 0 \<and> errno w' \<noteq> EINTR \<and> errno w' \<noteq> EAGAIN \<and> err = errno w' \<or>
         n = 0 \<and> err = 0 \<or>
         0 < n \<and> moved = L \<and> err = 0 \<or>
         n < 0 \<and> (errno w' = EINTR \<or> errno w' = EAGAIN) \<and> L = 0 \<and> err = 0)"
proof (induction "script w1" arbitrary: k m b w1)
  case Nil
  then show ?case
    by (subst (asm) read_loop_step) (simp add: sys_read_def)
next
  case (Cons r rs)
  obtain n d w2 where sr: "sys_read w1 inp (chunk L m) = Some (n, d, w2)"
    using Cons.prems(2) by (subst (asm) read_loop_step) (auto split: option.splits)
  have rs: "rs = script w2"
    using sys_read_script [OF sr] Cons.hyps(2) [symmetric] by simp
  have nb: "nat n \<le> L - m" and dl: "if n < 0 then d = [] else length d = nat n"
    using sys_read_bound [OF sr] chunk_le [of L m] by auto
  note step = Cons.prems(2) [unfolded read_loop_step [of w1 inp L m b] sr, simplified]
  note inv = read_calls_inv [OF Cons.prems(1)]
  show ?case
  proof (cases "n < 0")
    case neg: True
    then have d: "d = []" and nn: "nat n = 0" using dl by auto
    show ?thesis
    proof (cases "errno w2 \<noteq> EAGAIN \<and> errno w2 \<noteq> EINTR")
      case True
      with neg step have "err = errno w2" "moved = m" "rbuf = b" "w' = w2" by auto
      with Cons.prems(1) sr neg True d nn show ?thesis by fastforce
    next
      case tr: False
      show ?thesis
      proof (cases "m < L")
        case True
        have c: "read_calls (Suc k) w inp L = Some (m, b, w2)"
          using read_calls_again [OF Cons.prems(1) sr neg _ True] tr by blast
        have "read_loop w2 inp L m b = Some (err, moved, rbuf, w')"
          using step neg tr True by auto
        from Cons.hyps(1) [OF rs c this] show ?thesis .
      next
        case False
        with inv have "L = 0" "m = 0" by auto
        moreover from neg tr step False have "err = 0" "moved = m" "rbuf = b" "w' = w2" by auto
        ultimately show ?thesis using Cons.prems(1) sr neg tr d nn by fastforce
      qed
    qed
  next
    case nn: False
    show ?thesis
    proof (cases "n = 0")
      case True
      with dl have d: "d = []" by simp
      from True step have "err = 0" "moved = m" "rbuf = b" "w' = w2" by auto
      with Cons.prems(1) sr True d show ?thesis by fastforce
    next
      case pos: False
      with nn have p: "0 < n" by simp
      show ?thesis
      proof (cases "m + nat n < L")
        case True
        have c: "read_calls (Suc k) w inp L = Some (m + nat n, b @ d, w2)"
          using read_calls_more [OF Cons.prems(1) sr p True] .
        have "read_loop w2 inp L (m + nat n) (b @ d) = Some (err, moved, rbuf, w')"
          using step nn pos True by auto
        from Cons.hyps(1) [OF rs c this] show ?thesis .
      next
        case False
        with p nb have "m + nat n = L" by linarith
        moreover from nn pos step False have "err = 0" "moved = m + nat n" "rbuf = b @ d" "w' = w2" by auto
        ultimately show ?thesis using Cons.prems(1) sr p by fastforce
      qed
    qed
  qed
qed


lemma read_calls_returns:
  assumes c: "read_calls k w inp L = Some (m, b, w1)"
    and sr: "sys_read w1 inp (chunk L m) = Some (n, d, w')"
    and e: "n < 0 \<and> errno w' \<noteq> EINTR \<and> errno w' \<noteq> EAGAIN \<and> err = errno w' \<or>
         n = 0 \<and> err = 0 \<or>
         0 < n \<and> m + nat n = L \<and> err = 0 \<or>
         n < 0 \<and> (errno w' = EINTR \<or> errno w' = EAGAIN) \<and> L = 0 \<and> err = 0"
  shows "read_loop w inp L 0 [] = Some (err, m + nat n, b @ d, w')"
proof -
  have dl: "if n < 0 then d = [] else length d = nat n"
    using sys_read_bound [OF sr] by auto
  have "read_loop w1 inp L m b = Some (err, m + nat n, b @ d, w')"
    using sr e dl by (subst read_loop_step) auto
  with read_calls_loop [OF c] show ?thesis by simp
qed

lemma read_retry_calls:
  "kk_posix_read_retry w inp L = Some (err, moved, rbuf, w') \<longleftrightarrow>
     (\<exists>k m b w1 n d. read_calls k w inp L = Some (m, b, w1) \<and>
        sys_read w1 inp (chunk L m) = Some (n, d, w') \<and> moved = m + nat n \<and> rbuf = b @ d \<and>
        (n < 0 \<and> errno w' \<noteq> EINTR \<and> errno w' \<noteq> EAGAIN \<and> err = errno w' \<or>
         n = 0 \<and> err = 0 \<or>
         0 < n \<and> moved = L \<and> err = 0 \<or>
         n < 0 \<and> (errno w' = EINTR \<or> errno w' = EAGAIN) \<and> L = 0 \<and> err = 0))"
proof
  assume "kk_posix_read_retry w inp L = Some (err, moved, rbuf, w')"
  then have "read_loop w inp L 0 [] = Some (err, moved, rbuf, w')"
    by (simp add: kk_posix_read_retry_def)
  from read_loop_calls [of 0 w inp L 0 "[]" w, OF _ this]
  show "\<exists>k m b w1 n d. read_calls k w inp L = Some (m, b, w1) \<and>
        sys_read w1 inp (chunk L m) = Some (n, d, w') \<and> moved = m + nat n \<and> rbuf = b @ d \<and>
        (n < 0 \<and> errno w' \<noteq> EINTR \<and> errno w' \<noteq> EAGAIN \<and> err = errno w' \<or>
         n = 0 \<and> err = 0 \<or>
         0 < n \<and> moved = L \<and> err = 0 \<or>
         n < 0 \<and> (errno w' = EINTR \<or> errno w' = EAGAIN) \<and> L = 0 \<and> err = 0)"
    by simp
next
  assume "\<exists>k m b w1 n d. read_calls k w inp L = Some (m, b, w1) \<and>
        sys_read w1 inp (chunk L m) = Some (n, d, w') \<and> moved = m + nat n \<and> rbuf = b @ d \<and>
        (n < 0 \<and> errno w' \<noteq> EINTR \<and> errno w' \<noteq> EAGAIN \<and> err = errno w' \<or>
         n = 0 \<and> err = 0 \<or>
         0 < n \<and> moved = L \<and> err = 0 \<or>
         n < 0 \<and> (errno w' = EINTR \<or> errno w' = EAGAIN) \<and> L = 0 \<and> err = 0)"
  then obtain k m b w1 n d where c: "read_calls k w inp L = Some (m, b, w1)"
    and sr: "sys_read w1 inp (chunk L m) = Some (n, d, w')"
    and r: "moved = m + nat n" "rbuf = b @ d"
    and e: "n < 0 \<and> errno w' \<noteq> EINTR \<and> errno w' \<noteq> EAGAIN \<and> err = errno w' \<or>
         n = 0 \<and> err = 0 \<or>
         0 < n \<and> moved = L \<and> err = 0 \<or>
         n < 0 \<and> (errno w' = EINTR \<or> errno w' = EAGAIN) \<and> L = 0 \<and> err = 0"
    by blast
  from e r have e': "n < 0 \<and> errno w' \<noteq> EINTR \<and> errno w' \<noteq> EAGAIN \<and> err = errno w' \<or>
         n = 0 \<and> err = 0 \<or>
         0 < n \<and> m + nat n = L \<and> err = 0 \<or>
         n < 0 \<and> (errno w' = EINTR \<or> errno w' = EAGAIN) \<and> L = 0 \<and> err = 0"
    by simp
  from read_calls_returns [OF c sr e'] r
  show "kk_posix_read_retry w inp L = Some (err, moved, rbuf, w')"
    by (simp add: kk_posix_read_retry_def)
qed

lemma write_calls_SucD:
  "write_calls (Suc k) w out buf = Some (m', w2) \<Longrightarrow>
     \<exists>m w1 n. write_calls k w out buf = Some (m, w1) \<and>
        sys_write w1 out (take (chunk (length buf) m) (drop m buf)) = Some (n, w2) \<and>
        (n < 0 \<and> (errno w2 = EINTR \<or> errno w2 = EAGAIN) \<and> m < length buf \<and> m' = m \<or>
         0 < n \<and> m + nat n < length buf \<and> m' = m + nat n)"
  by (auto simp: write_calls.simps(2) split: option.splits if_splits)

lemma write_calls_again:
  "write_calls k w out buf = Some (m, w1) \<Longrightarrow>
   sys_write w1 out (take (chunk (length buf) m) (drop m buf)) = Some (n, w2) \<Longrightarrow>
     n < 0 \<Longrightarrow> errno w2 = EINTR \<or> errno w2 = EAGAIN \<Longrightarrow> m < length buf \<Longrightarrow>
     write_calls (Suc k) w out buf = Some (m, w2)"
  by (auto simp: write_calls.simps(2))

lemma write_calls_more:
  "write_calls k w out buf = Some (m, w1) \<Longrightarrow>
   sys_write w1 out (take (chunk (length buf) m) (drop m buf)) = Some (n, w2) \<Longrightarrow>
     0 < n \<Longrightarrow> m + nat n < length buf \<Longrightarrow>
     write_calls (Suc k) w out buf = Some (m + nat n, w2)"
  by (auto simp: write_calls.simps(2))

lemma write_calls_inv:
  assumes "write_calls k w out buf = Some (m, w1)"
  shows "(k = 0 \<and> m = 0 \<and> w1 = w) \<or> m < length buf"
proof (cases k)
  case 0
  with assms show ?thesis by simp
next
  case (Suc j)
  with assms have "write_calls (Suc j) w out buf = Some (m, w1)" by simp
  from write_calls_SucD [OF this] show ?thesis by auto
qed

lemma write_calls_loop:
  "write_calls k w out buf = Some (m, w1) \<Longrightarrow> write_loop w1 out buf m = write_loop w out buf 0"
proof (induction k arbitrary: m w1)
  case 0
  then show ?case by simp
next
  case (Suc k)
  from write_calls_SucD [OF Suc.prems] obtain m0 w0 n where
    c: "write_calls k w out buf = Some (m0, w0)" and
    s: "sys_write w0 out (take (chunk (length buf) m0) (drop m0 buf)) = Some (n, w1)" and
    k: "n < 0 \<and> (errno w1 = EINTR \<or> errno w1 = EAGAIN) \<and> m0 < length buf \<and> m = m0 \<or>
         0 < n \<and> m0 + nat n < length buf \<and> m = m0 + nat n"
    by blast
  have "write_loop w0 out buf m0 = write_loop w1 out buf m"
    using s k by (subst write_loop_step) auto
  with Suc.IH [OF c] show ?case by simp
qed

lemma write_loop_calls:
  "write_calls k w out buf = Some (m, w1) \<Longrightarrow>
   write_loop w1 out buf m = Some (err, moved, w') \<Longrightarrow>
     \<exists>k m w1 n. write_calls k w out buf = Some (m, w1) \<and>
        sys_write w1 out (take (chunk (length buf) m) (drop m buf)) = Some (n, w') \<and>
        moved = m + nat n \<and>
        (n < 0 \<and> errno w' \<noteq> EINTR \<and> errno w' \<noteq> EAGAIN \<and> err = errno w' \<or>
         n = 0 \<and> err = EIO \<or>
         0 < n \<and> moved = length buf \<and> err = 0 \<or>
         n < 0 \<and> (errno w' = EINTR \<or> errno w' = EAGAIN) \<and> buf = [] \<and> err = 0)"
proof (induction "script w1" arbitrary: k m w1)
  case Nil
  then show ?case
    by (subst (asm) write_loop_step) (simp add: sys_write_def)
next
  case (Cons r rs)
  let ?d = "take (chunk (length buf) m) (drop m buf)"
  obtain n w2 where sw: "sys_write w1 out ?d = Some (n, w2)"
    using Cons.prems(2) by (subst (asm) write_loop_step) (auto split: option.splits)
  have rs: "rs = script w2"
    using sys_write_script [OF sw] Cons.hyps(2) [symmetric] by simp
  have nb: "nat n \<le> length buf - m"
    using sys_write_bound [OF sw] chunk_le [of "length buf" m] by simp
  note step = Cons.prems(2) [unfolded write_loop_step [of w1 out buf m] sw, simplified]
  note inv = write_calls_inv [OF Cons.prems(1)]
  show ?case
  proof (cases "n < 0")
    case neg: True
    then have nn: "nat n = 0" by simp
    show ?thesis
    proof (cases "errno w2 \<noteq> EAGAIN \<and> errno w2 \<noteq> EINTR")
      case True
      with neg step have "err = errno w2" "moved = m" "w' = w2" by auto
      with Cons.prems(1) sw neg True nn show ?thesis by fastforce
    next
      case tr: False
      show ?thesis
      proof (cases "m < length buf")
        case True
        have c: "write_calls (Suc k) w out buf = Some (m, w2)"
          using write_calls_again [OF Cons.prems(1) sw neg _ True] tr by blast
        have "write_loop w2 out buf m = Some (err, moved, w')"
          using step neg tr True by auto
        from Cons.hyps(1) [OF rs c this] show ?thesis .
      next
        case False
        with inv have "buf = []" "m = 0" by auto
        moreover from neg tr step False have "err = 0" "moved = m" "w' = w2" by auto
        ultimately show ?thesis using Cons.prems(1) sw neg tr nn by fastforce
      qed
    qed
  next
    case nn: False
    show ?thesis
    proof (cases "n = 0")
      case True
      from True step have "err = EIO" "moved = m" "w' = w2" by auto
      with Cons.prems(1) sw True show ?thesis by fastforce
    next
      case pos: False
      with nn have p: "0 < n" by simp
      show ?thesis
      proof (cases "m + nat n < length buf")
        case True
        have c: "write_calls (Suc k) w out buf = Some (m + nat n, w2)"
          using write_calls_more [OF Cons.prems(1) sw p True] .
        have "write_loop w2 out buf (m + nat n) = Some (err, moved, w')"
          using step nn pos True by auto
        from Cons.hyps(1) [OF rs c this] show ?thesis .
      next
        case False
        with p nb have "m + nat n = length buf" by linarith
        moreover from nn pos step False have "err = 0" "moved = m + nat n" "w' = w2" by auto
        ultimately show ?thesis using Cons.prems(1) sw p by fastforce
      qed
    qed
  qed
qed

lemma write_calls_returns:
  assumes c: "write_calls k w out buf = Some (m, w1)"
    and sw: "sys_write w1 out (take (chunk (length buf) m) (drop m buf)) = Some (n, w')"
    and e: "n < 0 \<and> errno w' \<noteq> EINTR \<and> errno w' \<noteq> EAGAIN \<and> err = errno w' \<or>
         n = 0 \<and> err = EIO \<or>
         0 < n \<and> m + nat n = length buf \<and> err = 0 \<or>
         n < 0 \<and> (errno w' = EINTR \<or> errno w' = EAGAIN) \<and> buf = [] \<and> err = 0"
  shows "write_loop w out buf 0 = Some (err, m + nat n, w')"
proof -
  have "write_loop w1 out buf m = Some (err, m + nat n, w')"
    using sw e by (subst write_loop_step) auto
  with write_calls_loop [OF c] show ?thesis by simp
qed

lemma write_retry_calls:
  "kk_posix_write_retry w out buf = Some (err, moved, w') \<longleftrightarrow>
     (\<exists>k m w1 n. write_calls k w out buf = Some (m, w1) \<and>
        sys_write w1 out (take (chunk (length buf) m) (drop m buf)) = Some (n, w') \<and>
        moved = m + nat n \<and>
        (n < 0 \<and> errno w' \<noteq> EINTR \<and> errno w' \<noteq> EAGAIN \<and> err = errno w' \<or>
         n = 0 \<and> err = EIO \<or>
         0 < n \<and> moved = length buf \<and> err = 0 \<or>
         n < 0 \<and> (errno w' = EINTR \<or> errno w' = EAGAIN) \<and> buf = [] \<and> err = 0))"
proof
  assume "kk_posix_write_retry w out buf = Some (err, moved, w')"
  then have "write_loop w out buf 0 = Some (err, moved, w')"
    by (simp add: kk_posix_write_retry_def)
  from write_loop_calls [of 0 w out buf 0 w, OF _ this]
  show "\<exists>k m w1 n. write_calls k w out buf = Some (m, w1) \<and>
        sys_write w1 out (take (chunk (length buf) m) (drop m buf)) = Some (n, w') \<and>
        moved = m + nat n \<and>
        (n < 0 \<and> errno w' \<noteq> EINTR \<and> errno w' \<noteq> EAGAIN \<and> err = errno w' \<or>
         n = 0 \<and> err = EIO \<or>
         0 < n \<and> moved = length buf \<and> err = 0 \<or>
         n < 0 \<and> (errno w' = EINTR \<or> errno w' = EAGAIN) \<and> buf = [] \<and> err = 0)"
    by simp
next
  assume "\<exists>k m w1 n. write_calls k w out buf = Some (m, w1) \<and>
        sys_write w1 out (take (chunk (length buf) m) (drop m buf)) = Some (n, w') \<and>
        moved = m + nat n \<and>
        (n < 0 \<and> errno w' \<noteq> EINTR \<and> errno w' \<noteq> EAGAIN \<and> err = errno w' \<or>
         n = 0 \<and> err = EIO \<or>
         0 < n \<and> moved = length buf \<and> err = 0 \<or>
         n < 0 \<and> (errno w' = EINTR \<or> errno w' = EAGAIN) \<and> buf = [] \<and> err = 0)"
  then obtain k m w1 n where c: "write_calls k w out buf = Some (m, w1)"
    and sw: "sys_write w1 out (take (chunk (length buf) m) (drop m buf)) = Some (n, w')"
    and r: "moved = m + nat n"
    and e: "n < 0 \<and> errno w' \<noteq> EINTR \<and> errno w' \<noteq> EAGAIN \<and> err = errno w' \<or>
         n = 0 \<and> err = EIO \<or>
         0 < n \<and> moved = length buf \<and> err = 0 \<or>
         n < 0 \<and> (errno w' = EINTR \<or> errno w' = EAGAIN) \<and> buf = [] \<and> err = 0"
    by blast
  from e r have e': "n < 0 \<and> errno w' \<noteq> EINTR \<and> errno w' \<noteq> EAGAIN \<and> err = errno w' \<or>
         n = 0 \<and> err = EIO \<or>
         0 < n \<and> m + nat n = length buf \<and> err = 0 \<or>
         n < 0 \<and> (errno w' = EINTR \<or> errno w' = EAGAIN) \<and> buf = [] \<and> err = 0"
    by simp
  from write_calls_returns [OF c sw e'] r
  show "kk_posix_write_retry w out buf = Some (err, moved, w')"
    by (simp add: kk_posix_write_retry_def)
qed


subsection \<open>Transient failures leave no trace\<close>

lemma sys_read_frame:
  assumes "script w = r # rs" "script v = r # rs'" "non_transient r" "fs v = fs w" "fdt v = fdt w"
  shows "\<exists>n d w1 v1. sys_read w fd t = Some (n, d, w1) \<and> sys_read v fd t = Some (n, d, v1) \<and>
           fs v1 = fs w1 \<and> fdt v1 = fdt w1 \<and> script w1 = rs \<and> script v1 = rs' \<and>
           (n < 0 \<longrightarrow> errno v1 = errno w1 \<and> errno w1 \<noteq> EINTR \<and> errno w1 \<noteq> EAGAIN)"
  using assms
  by (auto simp: sys_read_def Let_def dest: errno_of_transientD
        split: sysres.splits option.splits ofile.splits node.splits)

lemma sys_write_frame:
  assumes "script w = r # rs" "script v = r # rs'" "non_transient r" "fs v = fs w" "fdt v = fdt w"
  shows "\<exists>n w1 v1. sys_write w fd d = Some (n, w1) \<and> sys_write v fd d = Some (n, v1) \<and>
           fs v1 = fs w1 \<and> fdt v1 = fdt w1 \<and> script w1 = rs \<and> script v1 = rs' \<and>
           (n < 0 \<longrightarrow> errno v1 = errno w1 \<and> errno w1 \<noteq> EINTR \<and> errno w1 \<noteq> EAGAIN)"
  using assms
  by (auto simp: sys_write_def Let_def dest: errno_of_transientD
        split: sysres.splits option.splits ofile.splits node.splits)

lemma read_loop_erase:
  "fs v = fs w \<Longrightarrow> fdt v = fdt w \<Longrightarrow> script v = filter non_transient (script w) \<Longrightarrow> m < L \<Longrightarrow>
     read_outcome (read_loop w inp L m b) = read_outcome (read_loop v inp L m b)"
proof (induction "script w" arbitrary: w v m b)
  case Nil
  then have "script w = []" "script v = []" by simp_all
  then have "read_loop w inp L m b = None" "read_loop v inp L m b = None"
    by (subst read_loop_step, simp add: sys_read_def)+
  then show ?case by simp
next
  case (Cons r rs)
  have sw: "script w = r # rs" using Cons.hyps(2) by simp
  show ?case
  proof (cases "non_transient r")
    case True
    with sw Cons.prems(3) have sv: "script v = r # filter non_transient rs" by simp
    from sys_read_frame [OF sw sv True Cons.prems(1,2), of inp "chunk L m"]
    obtain n d w1 v1 where
      rw: "sys_read w inp (chunk L m) = Some (n, d, w1)" and
      rv: "sys_read v inp (chunk L m) = Some (n, d, v1)" and
      f: "fs v1 = fs w1" "fdt v1 = fdt w1" "script w1 = rs" "script v1 = filter non_transient rs" and
      e: "n < 0 \<longrightarrow> errno v1 = errno w1 \<and> errno w1 \<noteq> EINTR \<and> errno w1 \<noteq> EAGAIN"
      by blast
    show ?thesis
    proof (cases "0 < n \<and> m + nat n < L")
      case go: True
      have "read_outcome (read_loop w1 inp L (m + nat n) (b @ d))
          = read_outcome (read_loop v1 inp L (m + nat n) (b @ d))"
        using f go by (intro Cons.hyps(1)) auto
      moreover have "read_loop w inp L m b = read_loop w1 inp L (m + nat n) (b @ d)"
        using rw go by (subst read_loop_step) auto
      moreover have "read_loop v inp L m b = read_loop v1 inp L (m + nat n) (b @ d)"
        using rv go by (subst read_loop_step) auto
      ultimately show ?thesis by simp
    next
      case stop: False
      have "read_outcome (read_loop w inp L m b) = read_outcome (read_loop v inp L m b)"
        unfolding read_loop_step [of w inp L m b] read_loop_step [of v inp L m b] rw rv
        using e f stop by (auto simp: read_outcome_def)
      then show ?thesis .
    qed
  next
    case False
    then obtain e where r: "r = Fail e" "transient e" by (cases r) auto
    let ?w1 = "w\<lparr>script := rs, errno := errno_of e\<rparr>"
    have "sys_read w inp (chunk L m) = Some (-1, [], ?w1)"
      using sw r by (simp add: sys_read_def)
    then have "read_loop w inp L m b = read_loop ?w1 inp L m b"
      using r(2) errno_of_transient [of e] Cons.prems(4) by (subst read_loop_step) auto
    moreover have "read_outcome (read_loop ?w1 inp L m b) = read_outcome (read_loop v inp L m b)"
      using Cons.prems sw False by (intro Cons.hyps(1)) auto
    ultimately show ?thesis by simp
  qed
qed

lemma write_loop_erase:
  "fs v = fs w \<Longrightarrow> fdt v = fdt w \<Longrightarrow> script v = filter non_transient (script w) \<Longrightarrow>
   m < length buf \<Longrightarrow>
     write_outcome (write_loop w out buf m) = write_outcome (write_loop v out buf m)"
proof (induction "script w" arbitrary: w v m)
  case Nil
  then have "script w = []" "script v = []" by simp_all
  then have "write_loop w out buf m = None" "write_loop v out buf m = None"
    by (subst write_loop_step, simp add: sys_write_def)+
  then show ?case by simp
next
  case (Cons r rs)
  let ?d = "take (chunk (length buf) m) (drop m buf)"
  have sw: "script w = r # rs" using Cons.hyps(2) by simp
  show ?case
  proof (cases "non_transient r")
    case True
    with sw Cons.prems(3) have sv: "script v = r # filter non_transient rs" by simp
    from sys_write_frame [OF sw sv True Cons.prems(1,2), of out ?d]
    obtain n w1 v1 where
      rw: "sys_write w out ?d = Some (n, w1)" and
      rv: "sys_write v out ?d = Some (n, v1)" and
      f: "fs v1 = fs w1" "fdt v1 = fdt w1" "script w1 = rs" "script v1 = filter non_transient rs" and
      e: "n < 0 \<longrightarrow> errno v1 = errno w1 \<and> errno w1 \<noteq> EINTR \<and> errno w1 \<noteq> EAGAIN"
      by blast
    show ?thesis
    proof (cases "0 < n \<and> m + nat n < length buf")
      case go: True
      have "write_outcome (write_loop w1 out buf (m + nat n))
          = write_outcome (write_loop v1 out buf (m + nat n))"
        using f go by (intro Cons.hyps(1)) auto
      moreover have "write_loop w out buf m = write_loop w1 out buf (m + nat n)"
        using rw go by (subst write_loop_step) auto
      moreover have "write_loop v out buf m = write_loop v1 out buf (m + nat n)"
        using rv go by (subst write_loop_step) auto
      ultimately show ?thesis by simp
    next
      case stop: False
      have "write_outcome (write_loop w out buf m) = write_outcome (write_loop v out buf m)"
        unfolding write_loop_step [of w out buf m] write_loop_step [of v out buf m] rw rv
        using e f stop by (auto simp: write_outcome_def)
      then show ?thesis .
    qed
  next
    case False
    then obtain e where r: "r = Fail e" "transient e" by (cases r) auto
    let ?w1 = "w\<lparr>script := rs, errno := errno_of e\<rparr>"
    have "sys_write w out ?d = Some (-1, ?w1)"
      using sw r by (simp add: sys_write_def)
    then have "write_loop w out buf m = write_loop ?w1 out buf m"
      using r(2) errno_of_transient [of e] Cons.prems(4) by (subst write_loop_step) auto
    moreover have "write_outcome (write_loop ?w1 out buf m) = write_outcome (write_loop v out buf m)"
      using Cons.prems sw False by (intro Cons.hyps(1)) auto
    ultimately show ?thesis by simp
  qed
qed


subsection \<open>Transfers that are only interrupted\<close>

lemma writable_frame [simp]:
  "writable (w\<lparr>script := s\<rparr>) fd = writable w fd"
  "writable (w\<lparr>errno := e\<rparr>) fd = writable w fd"
  by (simp_all add: writable_def split: option.splits ofile.splits)

lemma sys_write_progress:
  assumes sw: "script w = Xfer k # rs" and k: "0 < k" and wr: "writable w out" and d: "d \<noteq> []"
  shows "\<exists>n w1. sys_write w out d = Some (n, w1) \<and> 0 < n \<and> script w1 = rs \<and> writable w1 out"
proof (cases "map_of (fdt w) out")
  case None
  with wr show ?thesis by (simp add: writable_def)
next
  case (Some f)
  show ?thesis
  proof (cases f)
    case OTty
    with Some sw have "sys_write w out d = Some (int (min k (length d)), w\<lparr>script := rs\<rparr>)"
      by (simp add: sys_write_def)
    moreover have "0 < int (min k (length d))" using k d by simp
    moreover have "writable (w\<lparr>script := rs\<rparr>) out" using wr by simp
    ultimately show ?thesis by force
  next
    case (OFile p off fl)
    with Some wr obtain m c where fl: "fl = 1" and fp: "map_of (fs w) p = Some (Reg m c)"
      by (auto simp: writable_def split: option.splits node.splits)
    define n where "n = min k (length d)"
    define c' where "c' = take off c @ replicate (off - length c) (CHR 0x00) @ take n d @ drop (off + n) c"
    define w1 where "w1 = w\<lparr>script := rs, fs := update_alist p (Reg m c') (fs w),
                          fdt := update_alist out (OFile p (off + n) fl) (fdt w)\<rparr>"
    have "sys_write w out d = Some (int n, w1)"
      using Some OFile fl fp sw by (simp add: sys_write_def Let_def n_def c'_def w1_def)
    moreover have "0 < int n" using k d by (simp add: n_def)
    moreover have "script w1 = rs" by (simp add: w1_def)
    moreover have "writable w1 out"
      using fl by (simp add: writable_def w1_def map_of_update_alist)
    ultimately show ?thesis by blast
  qed
qed

lemma write_loop_completes:
  "list_all benign (script w) \<Longrightarrow> writable w out \<Longrightarrow> m < length buf \<Longrightarrow>
   length buf - m \<le> length (filter progressing (script w)) \<Longrightarrow>
     \<exists>w'. write_loop w out buf m = Some (0, length buf, w')"
proof (induction "script w" arbitrary: w m)
  case Nil
  then show ?case by simp
next
  case (Cons r rs)
  let ?d = "take (chunk (length buf) m) (drop m buf)"
  have sw: "script w = r # rs" using Cons.hyps(2) by simp
  show ?case
  proof (cases r)
    case (Fail e)
    with Cons.prems(1) sw have tr: "transient e" by simp
    let ?w1 = "w\<lparr>script := rs, errno := errno_of e\<rparr>"
    have "sys_write w out ?d = Some (-1, ?w1)"
      using sw Fail by (simp add: sys_write_def)
    then have "write_loop w out buf m = write_loop ?w1 out buf m"
      using tr errno_of_transient [of e] Cons.prems(3) by (subst write_loop_step) auto
    moreover have "\<exists>w'. write_loop ?w1 out buf m = Some (0, length buf, w')"
      using Cons.prems sw Fail by (intro Cons.hyps(1)) auto
    ultimately show ?thesis by simp
  next
    case (Xfer k)
    with Cons.prems(1) sw have k: "0 < k" by simp
    have d: "?d \<noteq> []" using chunk_pos [OF Cons.prems(3)] Cons.prems(3) by auto
    from sys_write_progress [OF sw [unfolded Xfer] k Cons.prems(2) d]
    obtain n w1 where s: "sys_write w out ?d = Some (n, w1)" and n: "0 < n"
      and w1: "script w1 = rs" "writable w1 out" by blast
    have nb: "nat n \<le> length buf - m"
      using sys_write_bound [OF s] chunk_le [of "length buf" m] by simp
    show ?thesis
    proof (cases "m + nat n < length buf")
      case True
      have "\<exists>w'. write_loop w1 out buf (m + nat n) = Some (0, length buf, w')"
        using Cons.prems sw Xfer w1 n True by (intro Cons.hyps(1)) auto
      moreover have "write_loop w out buf m = write_loop w1 out buf (m + nat n)"
        using s n True by (subst write_loop_step) auto
      ultimately show ?thesis by simp
    next
      case False
      with nb n Cons.prems(3) have "m + nat n = length buf" by linarith
      then show ?thesis using s n False by (subst write_loop_step) auto
    qed
  qed
qed

lemma take_length_take: "take (length (take j xs)) xs = take j xs"
  by (simp add: min_def)

lemma read_loop_delivers:
  "list_all benign (script w) \<Longrightarrow> map_of (fdt w) inp = Some (OFile p off O_RDONLY) \<Longrightarrow>
   map_of (fs w) p = Some (Reg mo c) \<Longrightarrow> m < L \<Longrightarrow>
   L - m \<le> length (filter progressing (script w)) \<Longrightarrow>
     \<exists>w'. read_loop w inp L m b =
        Some (0, m + min (L - m) (length c - off), b @ take (L - m) (drop off c), w')"
proof (induction "script w" arbitrary: w m b off)
  case Nil
  then show ?case by simp
next
  case (Cons r rs)
  have sw: "script w = r # rs" using Cons.hyps(2) by simp
  show ?case
  proof (cases r)
    case (Fail e)
    with Cons.prems(1) sw have tr: "transient e" by simp
    let ?w1 = "w\<lparr>script := rs, errno := errno_of e\<rparr>"
    have "sys_read w inp (chunk L m) = Some (-1, [], ?w1)"
      using sw Fail by (simp add: sys_read_def)
    then have "read_loop w inp L m b = read_loop ?w1 inp L m b"
      using tr errno_of_transient [of e] Cons.prems(4) by (subst read_loop_step) auto
    moreover have "\<exists>w'. read_loop ?w1 inp L m b =
        Some (0, m + min (L - m) (length c - off), b @ take (L - m) (drop off c), w')"
      using Cons.prems sw Fail by (intro Cons.hyps(1)) auto
    ultimately show ?thesis by simp
  next
    case (Xfer k)
    with Cons.prems(1) sw have k: "0 < k" by simp
    define d where "d = take (min k (chunk L m)) (drop off c)"
    define w1 where "w1 = w\<lparr>script := rs, fdt := update_alist inp (OFile p (off + length d) 0) (fdt w)\<rparr>"
    have s: "sys_read w inp (chunk L m) = Some (int (length d), d, w1)"
      using sw Xfer Cons.prems(2,3) by (simp add: sys_read_def d_def w1_def Let_def)
    have cp: "0 < chunk L m" "chunk L m \<le> L - m"
      using chunk_pos [OF Cons.prems(4)] chunk_le [of L m] by auto
    have dl: "length d = min (min k (chunk L m)) (length c - off)" by (simp add: d_def)
    have dt: "d = take (length d) (drop off c)"
      unfolding d_def by (rule take_length_take [symmetric])
    have w1: "script w1 = rs" "map_of (fdt w1) inp = Some (OFile p (off + length d) O_RDONLY)"
      "map_of (fs w1) p = Some (Reg mo c)"
      using Cons.prems(3) by (simp_all add: w1_def map_of_update_alist)
    show ?thesis
    proof (cases "length d = 0")
      case True
      with dl k cp have "length c - off = 0" by (auto simp: min_def split: if_splits)
      then have "min (L - m) (length c - off) = 0" "take (L - m) (drop off c) = []" by simp_all
      moreover have "read_loop w inp L m b = Some (0, m, b, w1)"
        using s True by (subst read_loop_step) simp
      ultimately show ?thesis by simp
    next
      case pos: False
      show ?thesis
      proof (cases "m + length d < L")
        case True
        have ld: "Suc 0 \<le> length d" using pos by (cases d) auto
        have fuel: "L - (m + length d) \<le> length (filter progressing (script w1))"
          using Cons.prems(5) sw Xfer k w1(1) ld by simp
        have ben: "list_all benign (script w1)" using Cons.prems(1) sw w1(1) by simp
        have "\<exists>w'. read_loop w1 inp L (m + length d) (b @ d) =
          Some (0, (m + length d) + min (L - (m + length d)) (length c - (off + length d)),
                (b @ d) @ take (L - (m + length d)) (drop (off + length d) c), w')"
          using w1(1) by (intro Cons.hyps(1) [OF _ ben w1(2,3) True fuel]) simp
        moreover have "read_loop w inp L m b = read_loop w1 inp L (m + length d) (b @ d)"
          using s pos True by (subst read_loop_step) auto
        moreover have "(m + length d) + min (L - (m + length d)) (length c - (off + length d))
            = m + min (L - m) (length c - off)"
          using dl True by (auto simp: min_def split: if_splits)
        moreover have "d @ take (L - (m + length d)) (drop (off + length d) c) = take (L - m) (drop off c)"
        proof -
          have "take (L - m) (drop off c) = take (length d + (L - (m + length d))) (drop off c)"
            using True by simp
          also have "\<dots> = take (length d) (drop off c) @ take (L - (m + length d)) (drop (length d) (drop off c))"
            by (rule take_add)
          also have "\<dots> = d @ take (L - (m + length d)) (drop (off + length d) c)"
            using dt by (simp add: add.commute)
          finally show ?thesis by simp
        qed
        ultimately show ?thesis by auto
      next
        case False
        with dl cp have e: "length d = L - m" by (auto simp: min_def split: if_splits)
        with dl have "min (L - m) (length c - off) = L - m" by (auto simp: min_def split: if_splits)
        moreover have "take (L - m) (drop off c) = d" using dt e by simp
        moreover have "read_loop w inp L m b = Some (0, m + length d, b @ d, w1)"
          using s pos False by (subst read_loop_step) auto
        ultimately show ?thesis using e by simp
      qed
    qed
  qed
qed

lemma read_zero_request:
  assumes "list_all benign (script w)" "script w \<noteq> []"
    "map_of (fdt w) inp = Some (OFile p off O_RDONLY)" "map_of (fs w) p = Some (Reg mo c)"
  shows "\<exists>w'. read_loop w inp 0 0 [] = Some (0, 0, [], w')"
proof (cases "script w")
  case Nil
  with assms(2) show ?thesis by simp
next
  case (Cons r rs)
  show ?thesis
  proof (cases r)
    case (Fail e)
    with assms(1) Cons have "transient e" by simp
    with Cons Fail errno_of_transient [of e] show ?thesis
      by (subst read_loop_step) (auto simp: sys_read_def chunk_def)
  next
    case (Xfer k)
    with Cons assms(3,4) show ?thesis
      by (subst read_loop_step) (simp add: sys_read_def chunk_def Let_def)
  qed
qed

text \<open>
  C6, as the code has it. Neither loop ever returns \<open>EINTR\<close> or \<open>EAGAIN\<close> as its status.
  A loop returns a result exactly when its sequence of calls reaches a call that ends
  the transfer, and the result is what this last call leaves: that call
  failed with an error other than \<open>EINTR\<close> and \<open>EAGAIN\<close> (which is the status), or it moved
  nothing (end of input and status 0 for \<open>read\<close>, \<open>EIO\<close> for \<open>write\<close>), or it moved the
  last of the requested bytes (status 0); it was a transient failure only when no byte at
  all was requested. Every call before it was followed by another call that asks for the
  bytes that then remain. So in a transfer of at least one byte a transient failure,
  wherever it happens, is retried, and the status, the count, the bytes, the files and the
  descriptors are those of the same transfer with every transient failure deleted from
  the sequence of results. On the read side the bytes moved never exceed the requested
  length, and they fall short of it only when the last call returned zero bytes (end of
  input, with status 0) or failed with an error that is not retried (which is the status).
\<close>

theorem retry_transfer_hides_transient:
  "(kk_posix_read_retry w inp L = Some (err, moved, rbuf, w') \<longrightarrow>
      err \<noteq> EINTR \<and> err \<noteq> EAGAIN \<and> moved \<le> L \<and> length rbuf = moved \<and>
      (moved < L \<longrightarrow>
         (\<exists>k w1 n. read_calls k w inp L = Some (moved, rbuf, w1) \<and>
            sys_read w1 inp (chunk L moved) = Some (n, [], w') \<and>
            (n = 0 \<and> err = 0 \<or> n < 0 \<and> err = errno w' \<and> 0 < err)))) \<and>
   (kk_posix_write_retry w out buf = Some (werr, wmoved, w'') \<longrightarrow>
      werr \<noteq> EINTR \<and> werr \<noteq> EAGAIN) \<and>
   (kk_posix_read_retry w inp L = Some (err, moved, rbuf, w') \<longleftrightarrow>
      (\<exists>k m b w1 n d. read_calls k w inp L = Some (m, b, w1) \<and>
         sys_read w1 inp (chunk L m) = Some (n, d, w') \<and> moved = m + nat n \<and> rbuf = b @ d \<and>
         (n < 0 \<and> errno w' \<noteq> EINTR \<and> errno w' \<noteq> EAGAIN \<and> err = errno w' \<or>
          n = 0 \<and> err = 0 \<or>
          0 < n \<and> moved = L \<and> err = 0 \<or>
          n < 0 \<and> (errno w' = EINTR \<or> errno w' = EAGAIN) \<and> L = 0 \<and> err = 0))) \<and>
   (kk_posix_write_retry w out buf = Some (werr, wmoved, w'') \<longleftrightarrow>
      (\<exists>k m w1 n. write_calls k w out buf = Some (m, w1) \<and>
         sys_write w1 out (take (chunk (length buf) m) (drop m buf)) = Some (n, w'') \<and>
         wmoved = m + nat n \<and>
         (n < 0 \<and> errno w'' \<noteq> EINTR \<and> errno w'' \<noteq> EAGAIN \<and> werr = errno w'' \<or>
          n = 0 \<and> werr = EIO \<or>
          0 < n \<and> wmoved = length buf \<and> werr = 0 \<or>
          n < 0 \<and> (errno w'' = EINTR \<or> errno w'' = EAGAIN) \<and> buf = [] \<and> werr = 0))) \<and>
   (0 < L \<longrightarrow>
      read_outcome (kk_posix_read_retry w inp L) =
      read_outcome (kk_posix_read_retry (w\<lparr>script := filter non_transient (script w)\<rparr>) inp L)) \<and>
   (buf \<noteq> [] \<longrightarrow>
      write_outcome (kk_posix_write_retry w out buf) =
      write_outcome (kk_posix_write_retry (w\<lparr>script := filter non_transient (script w)\<rparr>) out buf))"
proof (intro conjI impI)
  assume r: "kk_posix_read_retry w inp L = Some (err, moved, rbuf, w')"
  from read_loop_inv [of w inp L 0 "[]" err moved rbuf w'] r
  have inv: "moved \<le> L \<and> err \<noteq> EINTR \<and> err \<noteq> EAGAIN \<and> length rbuf = moved"
    by (simp add: kk_posix_read_retry_def)
  from inv show "err \<noteq> EINTR" by blast
  from inv show "err \<noteq> EAGAIN" by blast
  from inv show "moved \<le> L" by blast
  from inv show "length rbuf = moved" by blast
  assume short: "moved < L"
  from r [unfolded read_retry_calls] obtain k m b w1 n d where
    c: "read_calls k w inp L = Some (m, b, w1)" and
    s: "sys_read w1 inp (chunk L m) = Some (n, d, w')" and
    e: "moved = m + nat n" "rbuf = b @ d"
      "n < 0 \<and> errno w' \<noteq> EINTR \<and> errno w' \<noteq> EAGAIN \<and> err = errno w' \<or>
       n = 0 \<and> err = 0 \<or>
       0 < n \<and> moved = L \<and> err = 0 \<or>
       n < 0 \<and> (errno w' = EINTR \<or> errno w' = EAGAIN) \<and> L = 0 \<and> err = 0"
    by blast
  have dl: "if n < 0 then d = [] else length d = nat n"
    using sys_read_bound [OF s] by auto
  from e(3) short have n: "n = 0 \<and> err = 0 \<or> n < 0 \<and> err = errno w'" by auto
  with dl e(1,2) have m: "moved = m" "rbuf = b" "d = []" by auto
  from n sys_read_fail [OF s] have "n = 0 \<and> err = 0 \<or> n < 0 \<and> err = errno w' \<and> 0 < err"
    by auto
  with c s m show "\<exists>k w1 n. read_calls k w inp L = Some (moved, rbuf, w1) \<and>
            sys_read w1 inp (chunk L moved) = Some (n, [], w') \<and>
            (n = 0 \<and> err = 0 \<or> n < 0 \<and> err = errno w' \<and> 0 < err)"
    by blast
next
  assume wr: "kk_posix_write_retry w out buf = Some (werr, wmoved, w'')"
  from write_loop_inv [of w out buf 0 werr wmoved w''] wr
  show "werr \<noteq> EINTR" "werr \<noteq> EAGAIN" by (simp_all add: kk_posix_write_retry_def)
next
  show "kk_posix_read_retry w inp L = Some (err, moved, rbuf, w') \<longleftrightarrow>
      (\<exists>k m b w1 n d. read_calls k w inp L = Some (m, b, w1) \<and>
         sys_read w1 inp (chunk L m) = Some (n, d, w') \<and> moved = m + nat n \<and> rbuf = b @ d \<and>
         (n < 0 \<and> errno w' \<noteq> EINTR \<and> errno w' \<noteq> EAGAIN \<and> err = errno w' \<or>
          n = 0 \<and> err = 0 \<or>
          0 < n \<and> moved = L \<and> err = 0 \<or>
          n < 0 \<and> (errno w' = EINTR \<or> errno w' = EAGAIN) \<and> L = 0 \<and> err = 0))"
    by (rule read_retry_calls)
next
  show "kk_posix_write_retry w out buf = Some (werr, wmoved, w'') \<longleftrightarrow>
      (\<exists>k m w1 n. write_calls k w out buf = Some (m, w1) \<and>
         sys_write w1 out (take (chunk (length buf) m) (drop m buf)) = Some (n, w'') \<and>
         wmoved = m + nat n \<and>
         (n < 0 \<and> errno w'' \<noteq> EINTR \<and> errno w'' \<noteq> EAGAIN \<and> werr = errno w'' \<or>
          n = 0 \<and> werr = EIO \<or>
          0 < n \<and> wmoved = length buf \<and> werr = 0 \<or>
          n < 0 \<and> (errno w'' = EINTR \<or> errno w'' = EAGAIN) \<and> buf = [] \<and> werr = 0))"
    by (rule write_retry_calls)
next
  assume "0 < L"
  then show "read_outcome (kk_posix_read_retry w inp L) =
      read_outcome (kk_posix_read_retry (w\<lparr>script := filter non_transient (script w)\<rparr>) inp L)"
    unfolding kk_posix_read_retry_def by (intro read_loop_erase) simp_all
next
  assume "buf \<noteq> []"
  then show "write_outcome (kk_posix_write_retry w out buf) =
      write_outcome (kk_posix_write_retry (w\<lparr>script := filter non_transient (script w)\<rparr>) out buf)"
    unfolding kk_posix_write_retry_def by (intro write_loop_erase) simp_all
qed

text \<open>
  A run of it: reading 8 bytes of the file \<open>hello\<close> and writing \<open>abc\<close> to the terminal, with
  an interrupted call at the start and another one after the first two bytes. The first
  four calls of the read are each followed by another call; the fifth returns zero bytes.
\<close>

theorem retry_transfer_hides_transient_witness:
  "kk_posix_read_retry (file_world ''hello'' [Fail E_INTR, Xfer 2, Fail E_AGAIN, Xfer 10, Xfer 10]) 3 8
     = Some (0, 5, ''hello'',
         (file_world ''hello'' [])\<lparr>fdt := [(0, OTty), (1, OTty), (2, OTty), (3, OFile [''f''] 5 O_RDONLY)],
           errno := EAGAIN\<rparr>) \<and>
   read_calls 4 (file_world ''hello'' [Fail E_INTR, Xfer 2, Fail E_AGAIN, Xfer 10, Xfer 10]) 3 8
     = Some (5, ''hello'',
         (file_world ''hello'' [Xfer 10])\<lparr>fdt := [(0, OTty), (1, OTty), (2, OTty), (3, OFile [''f''] 5 O_RDONLY)],
           errno := EAGAIN\<rparr>) \<and>
   sys_read ((file_world ''hello'' [Xfer 10])\<lparr>fdt := [(0, OTty), (1, OTty), (2, OTty), (3, OFile [''f''] 5 O_RDONLY)],
           errno := EAGAIN\<rparr>) 3 (chunk 8 5)
     = Some (0, [],
         (file_world ''hello'' [])\<lparr>fdt := [(0, OTty), (1, OTty), (2, OTty), (3, OFile [''f''] 5 O_RDONLY)],
           errno := EAGAIN\<rparr>) \<and>
   read_outcome (kk_posix_read_retry (file_world ''hello'' [Fail E_INTR, Xfer 2, Fail E_AGAIN, Xfer 10, Xfer 10]) 3 8)
     = read_outcome (kk_posix_read_retry (file_world ''hello'' [Xfer 2, Xfer 10, Xfer 10]) 3 8) \<and>
   kk_posix_write_retry (file_world ''hello'' [Fail E_INTR, Xfer 2, Fail E_AGAIN, Xfer 10, Xfer 10]) 1 ''abc''
     = Some (0, 3, (file_world ''hello'' [Xfer 10])\<lparr>errno := EAGAIN\<rparr>) \<and>
   write_calls 3 (file_world ''hello'' [Fail E_INTR, Xfer 2, Fail E_AGAIN, Xfer 10, Xfer 10]) 1 ''abc''
     = Some (2, (file_world ''hello'' [Xfer 10, Xfer 10])\<lparr>errno := EAGAIN\<rparr>) \<and>
   write_outcome (kk_posix_write_retry (file_world ''hello'' [Fail E_INTR, Xfer 2, Fail E_AGAIN, Xfer 10, Xfer 10]) 1 ''abc'')
     = write_outcome (kk_posix_write_retry (file_world ''hello'' [Xfer 2, Xfer 10, Xfer 10]) 1 ''abc'')"
proof -
  let ?w = "file_world ''hello'' [Fail E_INTR, Xfer 2, Fail E_AGAIN, Xfer 10, Xfer 10]"
  let ?w' = "(file_world ''hello'' [])\<lparr>fdt := [(0, OTty), (1, OTty), (2, OTty), (3, OFile [''f''] 5 O_RDONLY)],
           errno := EAGAIN\<rparr>"
  let ?w'' = "(file_world ''hello'' [Xfer 10])\<lparr>errno := EAGAIN\<rparr>"
  have rd: "kk_posix_read_retry ?w 3 8 = Some (0, 5, ''hello'', ?w')"
    by code_simp
  have rc: "read_calls 4 ?w 3 8
     = Some (5, ''hello'',
         (file_world ''hello'' [Xfer 10])\<lparr>fdt := [(0, OTty), (1, OTty), (2, OTty), (3, OFile [''f''] 5 O_RDONLY)],
           errno := EAGAIN\<rparr>)"
    by code_simp
  have sr: "sys_read ((file_world ''hello'' [Xfer 10])\<lparr>fdt := [(0, OTty), (1, OTty), (2, OTty), (3, OFile [''f''] 5 O_RDONLY)],
           errno := EAGAIN\<rparr>) 3 (chunk 8 5) = Some (0, [], ?w')"
    by code_simp
  have wr: "kk_posix_write_retry ?w 1 ''abc'' = Some (0, 3, ?w'')"
    by code_simp
  have wc: "write_calls 3 ?w 1 ''abc''
     = Some (2, (file_world ''hello'' [Xfer 10, Xfer 10])\<lparr>errno := EAGAIN\<rparr>)"
    by code_simp
  have flt: "?w\<lparr>script := filter non_transient (script ?w)\<rparr> = file_world ''hello'' [Xfer 2, Xfer 10, Xfer 10]"
    by (simp add: file_world_def)
  note a = retry_transfer_hides_transient [of ?w 3 8 0 5 "''hello''" ?w' 1 "''abc''" 0 3 ?w'']
  from a rd rc sr wr wc flt show ?thesis by simp
qed

text \<open>
  C6 as stated fails for a request of zero bytes: the body of the \<open>do ... while\<close> loop
  makes its one call, and when that call fails with \<open>EINTR\<close> the test \<open>ofs < buflen\<close> ends
  the loop. The call is not made again (the next result of the script stays unused), and
  the status is 0. \<open>kk_os_read_text_file\<close> makes such a request for an empty file.
\<close>

theorem zero_request_not_retried_counterexample:
  "sys_read (file_world [] [Fail E_INTR, Xfer 9]) 3 (chunk 0 0)
     = Some (-1, [], (file_world [] [Xfer 9])\<lparr>errno := EINTR\<rparr>) \<and>
   kk_posix_read_retry (file_world [] [Fail E_INTR, Xfer 9]) 3 0
     = Some (0, 0, [], (file_world [] [Xfer 9])\<lparr>errno := EINTR\<rparr>) \<and>
   read_calls 1 (file_world [] [Fail E_INTR, Xfer 9]) 3 0 = None \<and>
   kk_os_read_text_file (file_world [] [Fail E_INTR, Xfer 9]) ''f''
     = Some (0, Some [], (file_world [] [Xfer 9])\<lparr>errno := EINTR\<rparr>) \<and>
   sys_write (tty_world [Fail E_INTR, Xfer 9]) 1 []
     = Some (-1, (tty_world [Xfer 9])\<lparr>errno := EINTR\<rparr>) \<and>
   kk_posix_write_retry (tty_world [Fail E_INTR, Xfer 9]) 1 []
     = Some (0, 0, (tty_world [Xfer 9])\<lparr>errno := EINTR\<rparr>)"
  by code_simp

text \<open>
  C9. Retry Transfer returns whenever the simulated sequence of results holds enough
  results that are not transient failures, however many interrupted calls lie between
  them: \<open>max 1 L\<close> of them are enough for a request of \<open>L\<close> bytes, since each ends the
  loop or moves at least one byte. The write loop then reports that all \<open>L\<close> bytes were
  moved, or an error that is neither \<open>EINTR\<close> nor \<open>EAGAIN\<close>; the read loop reports at most
  \<open>L\<close> bytes, and fewer than \<open>L\<close> only with such an error or when its last call returned
  zero bytes. What is reported is the outcome of the calls that were made: each call but
  the last failed with \<open>EINTR\<close> or \<open>EAGAIN\<close> or moved a part of the bytes, and was followed
  by a call for the bytes that then remained; the last call failed for good (its error is
  the status), moved nothing, or moved the last of the bytes. In particular, when the
  sequence holds only interrupted calls and calls that make progress, at least \<open>L\<close> of
  these, a write of \<open>L > 0\<close> bytes to an open descriptor reports status 0 and \<open>L\<close> bytes
  moved, and a read from a regular file reports status 0 and the next \<open>L\<close> bytes of the
  file, or all that is left of it.
\<close>

theorem retry_transfer_terminates:
  "(max 1 (length buf) \<le> length (filter non_transient (script w)) \<longrightarrow>
      (\<exists>err moved w'. kk_posix_write_retry w out buf = Some (err, moved, w') \<and>
         (moved = length buf \<or> (err \<noteq> 0 \<and> err \<noteq> EINTR \<and> err \<noteq> EAGAIN)) \<and>
         (\<exists>k m w1 n. write_calls k w out buf = Some (m, w1) \<and>
            sys_write w1 out (take (chunk (length buf) m) (drop m buf)) = Some (n, w') \<and>
            moved = m + nat n \<and>
            (n < 0 \<and> errno w' \<noteq> EINTR \<and> errno w' \<noteq> EAGAIN \<and> err = errno w' \<or>
             n = 0 \<and> err = EIO \<or>
             0 < n \<and> moved = length buf \<and> err = 0 \<or>
             n < 0 \<and> (errno w' = EINTR \<or> errno w' = EAGAIN) \<and> buf = [] \<and> err = 0)))) \<and>
   (max 1 L \<le> length (filter non_transient (script w)) \<longrightarrow>
      (\<exists>err moved rbuf w'. kk_posix_read_retry w inp L = Some (err, moved, rbuf, w') \<and>
         moved \<le> L \<and>
         (\<exists>k m b w1 n d. read_calls k w inp L = Some (m, b, w1) \<and>
            sys_read w1 inp (chunk L m) = Some (n, d, w') \<and> moved = m + nat n \<and> rbuf = b @ d \<and>
            (n < 0 \<and> errno w' \<noteq> EINTR \<and> errno w' \<noteq> EAGAIN \<and> err = errno w' \<or>
             n = 0 \<and> err = 0 \<or>
             0 < n \<and> moved = L \<and> err = 0 \<or>
             n < 0 \<and> (errno w' = EINTR \<or> errno w' = EAGAIN) \<and> L = 0 \<and> err = 0)))) \<and>
   (list_all benign (script w) \<and> buf \<noteq> [] \<and>
    length buf \<le> length (filter progressing (script w)) \<and> writable w out \<longrightarrow>
      (\<exists>w'. kk_posix_write_retry w out buf = Some (0, length buf, w'))) \<and>
   (list_all benign (script w) \<and> max 1 L \<le> length (filter progressing (script w)) \<and>
    map_of (fdt w) inp = Some (OFile p off O_RDONLY) \<and> map_of (fs w) p = Some (Reg mo c) \<longrightarrow>
      (\<exists>w'. kk_posix_read_retry w inp L =
               Some (0, min L (length c - off), take L (drop off c), w')))"
proof (intro conjI impI)
  assume h: "max 1 (length buf) \<le> length (filter non_transient (script w))"
  then have "length buf - 0 \<le> length (filter non_transient (script w))"
    and "0 < length (filter non_transient (script w))" by linarith+
  then obtain r where "write_loop w out buf 0 = Some r"
    using write_loop_returns [of buf 0 w out] by blast
  then obtain err moved w' where run: "write_loop w out buf 0 = Some (err, moved, w')"
    by (cases r) auto
  then have wr: "kk_posix_write_retry w out buf = Some (err, moved, w')"
    by (simp add: kk_posix_write_retry_def)
  from write_loop_inv [OF run] have "moved = length buf \<or> (err \<noteq> 0 \<and> err \<noteq> EINTR \<and> err \<noteq> EAGAIN)"
    by auto
  with wr wr [unfolded write_retry_calls]
  show "\<exists>err moved w'. kk_posix_write_retry w out buf = Some (err, moved, w') \<and>
         (moved = length buf \<or> (err \<noteq> 0 \<and> err \<noteq> EINTR \<and> err \<noteq> EAGAIN)) \<and>
         (\<exists>k m w1 n. write_calls k w out buf = Some (m, w1) \<and>
            sys_write w1 out (take (chunk (length buf) m) (drop m buf)) = Some (n, w') \<and>
            moved = m + nat n \<and>
            (n < 0 \<and> errno w' \<noteq> EINTR \<and> errno w' \<noteq> EAGAIN \<and> err = errno w' \<or>
             n = 0 \<and> err = EIO \<or>
             0 < n \<and> moved = length buf \<and> err = 0 \<or>
             n < 0 \<and> (errno w' = EINTR \<or> errno w' = EAGAIN) \<and> buf = [] \<and> err = 0))"
    by blast
next
  assume h: "max 1 L \<le> length (filter non_transient (script w))"
  then have "L - 0 \<le> length (filter non_transient (script w))"
    and "0 < length (filter non_transient (script w))" by linarith+
  then obtain r where "read_loop w inp L 0 [] = Some r"
    using read_loop_returns [of L 0 w inp "[]"] by blast
  then obtain err moved rbuf w' where run: "read_loop w inp L 0 [] = Some (err, moved, rbuf, w')"
    by (cases r) auto
  then have rr: "kk_posix_read_retry w inp L = Some (err, moved, rbuf, w')"
    by (simp add: kk_posix_read_retry_def)
  from read_loop_inv [OF run] have "moved \<le> L" by auto
  with rr rr [unfolded read_retry_calls]
  show "\<exists>err moved rbuf w'. kk_posix_read_retry w inp L = Some (err, moved, rbuf, w') \<and>
         moved \<le> L \<and>
         (\<exists>k m b w1 n d. read_calls k w inp L = Some (m, b, w1) \<and>
            sys_read w1 inp (chunk L m) = Some (n, d, w') \<and> moved = m + nat n \<and> rbuf = b @ d \<and>
            (n < 0 \<and> errno w' \<noteq> EINTR \<and> errno w' \<noteq> EAGAIN \<and> err = errno w' \<or>
             n = 0 \<and> err = 0 \<or>
             0 < n \<and> moved = L \<and> err = 0 \<or>
             n < 0 \<and> (errno w' = EINTR \<or> errno w' = EAGAIN) \<and> L = 0 \<and> err = 0))"
    by blast
next
  assume a: "list_all benign (script w) \<and> buf \<noteq> [] \<and>
    length buf \<le> length (filter progressing (script w)) \<and> writable w out"
  then show "\<exists>w'. kk_posix_write_retry w out buf = Some (0, length buf, w')"
    unfolding kk_posix_write_retry_def by (intro write_loop_completes) auto
next
  assume a: "list_all benign (script w) \<and> max 1 L \<le> length (filter progressing (script w)) \<and>
    map_of (fdt w) inp = Some (OFile p off O_RDONLY) \<and> map_of (fs w) p = Some (Reg mo c)"
  show "\<exists>w'. kk_posix_read_retry w inp L =
               Some (0, min L (length c - off), take L (drop off c), w')"
  proof (cases "0 < L")
    case True
    with a have "\<exists>w'. read_loop w inp L 0 [] =
        Some (0, 0 + min (L - 0) (length c - off), [] @ take (L - 0) (drop off c), w')"
      by (intro read_loop_delivers) auto
    then show ?thesis by (simp add: kk_posix_read_retry_def)
  next
    case False
    then have L: "L = 0" by simp
    from a have "script w \<noteq> []" by auto
    with a read_zero_request [of w inp p off mo c] L show ?thesis
      by (simp add: kk_posix_read_retry_def)
  qed
qed

text \<open>
  Runs of it: a write of two bytes and reads of three and of eight bytes of \<open>hello\<close>, each
  with an interrupted call at the start and another after the first progress; and a write
  that fails for good after one byte.
\<close>

theorem retry_transfer_terminates_witness:
  "max 1 (length ''ab'') \<le> length (filter non_transient (script (tty_world [Fail E_INTR, Xfer 1, Fail E_AGAIN, Xfer 5]))) \<and>
   list_all benign (script (tty_world [Fail E_INTR, Xfer 1, Fail E_AGAIN, Xfer 5])) \<and> ''ab'' \<noteq> [] \<and>
   length ''ab'' \<le> length (filter progressing (script (tty_world [Fail E_INTR, Xfer 1, Fail E_AGAIN, Xfer 5]))) \<and>
   writable (tty_world [Fail E_INTR, Xfer 1, Fail E_AGAIN, Xfer 5]) 1 \<and>
   kk_posix_write_retry (tty_world [Fail E_INTR, Xfer 1, Fail E_AGAIN, Xfer 5]) 1 ''ab''
     = Some (0, 2, (tty_world [])\<lparr>errno := EAGAIN\<rparr>) \<and>
   write_calls 3 (tty_world [Fail E_INTR, Xfer 1, Fail E_AGAIN, Xfer 5]) 1 ''ab''
     = Some (1, (tty_world [Xfer 5])\<lparr>errno := EAGAIN\<rparr>) \<and>
   sys_write ((tty_world [Xfer 5])\<lparr>errno := EAGAIN\<rparr>) 1 (take (chunk (length ''ab'') 1) (drop 1 ''ab''))
     = Some (1, (tty_world [])\<lparr>errno := EAGAIN\<rparr>) \<and>
   kk_posix_write_retry (tty_world [Fail E_INTR, Xfer 1, Fail E_IO, Xfer 5]) 1 ''ab''
     = Some (EIO, 1, (tty_world [Xfer 5])\<lparr>errno := EIO\<rparr>) \<and>
   max 1 3 \<le> length (filter non_transient (script (file_world ''hello'' [Fail E_INTR, Xfer 2, Fail E_AGAIN, Xfer 10, Xfer 10]))) \<and>
   list_all benign (script (file_world ''hello'' [Fail E_INTR, Xfer 2, Fail E_AGAIN, Xfer 10, Xfer 10])) \<and>
   max 1 3 \<le> length (filter progressing (script (file_world ''hello'' [Fail E_INTR, Xfer 2, Fail E_AGAIN, Xfer 10, Xfer 10]))) \<and>
   map_of (fdt (file_world ''hello'' [Fail E_INTR, Xfer 2, Fail E_AGAIN, Xfer 10, Xfer 10])) 3 = Some (OFile [''f''] 0 O_RDONLY) \<and>
   map_of (fs (file_world ''hello'' [Fail E_INTR, Xfer 2, Fail E_AGAIN, Xfer 10, Xfer 10])) [''f''] = Some (Reg 420 ''hello'') \<and>
   kk_posix_read_retry (file_world ''hello'' [Fail E_INTR, Xfer 2, Fail E_AGAIN, Xfer 10, Xfer 10]) 3 3
     = Some (0, 3, ''hel'',
         (file_world ''hello'' [Xfer 10])\<lparr>fdt := [(0, OTty), (1, OTty), (2, OTty), (3, OFile [''f''] 3 O_RDONLY)],
           errno := EAGAIN\<rparr>) \<and>
   kk_posix_read_retry (file_world ''hello'' [Fail E_INTR, Xfer 2, Fail E_AGAIN, Xfer 10, Xfer 10]) 3 8
     = Some (0, 5, ''hello'',
         (file_world ''hello'' [])\<lparr>fdt := [(0, OTty), (1, OTty), (2, OTty), (3, OFile [''f''] 5 O_RDONLY)],
           errno := EAGAIN\<rparr>)"
proof -
  let ?t = "tty_world [Fail E_INTR, Xfer 1, Fail E_AGAIN, Xfer 5]"
  let ?f = "file_world ''hello'' [Fail E_INTR, Xfer 2, Fail E_AGAIN, Xfer 10, Xfer 10]"
  have ht: "max 1 (length ''ab'') \<le> length (filter non_transient (script ?t))"
    "list_all benign (script ?t)" "''ab'' \<noteq> []"
    "length ''ab'' \<le> length (filter progressing (script ?t))" "writable ?t 1"
    by (simp_all add: tty_world_def writable_def)
  have hf: "max 1 3 \<le> length (filter non_transient (script ?f))"
    "list_all benign (script ?f)" "max 1 3 \<le> length (filter progressing (script ?f))"
    "map_of (fdt ?f) 3 = Some (OFile [''f''] 0 O_RDONLY)"
    "map_of (fs ?f) [''f''] = Some (Reg 420 ''hello'')"
    by (simp_all add: file_world_def)
  have wr: "kk_posix_write_retry ?t 1 ''ab'' = Some (0, 2, (tty_world [])\<lparr>errno := EAGAIN\<rparr>)"
    by code_simp
  have wc: "write_calls 3 ?t 1 ''ab'' = Some (1, (tty_world [Xfer 5])\<lparr>errno := EAGAIN\<rparr>)"
    by code_simp
  have sw: "sys_write ((tty_world [Xfer 5])\<lparr>errno := EAGAIN\<rparr>) 1 (take (chunk (length ''ab'') 1) (drop 1 ''ab''))
     = Some (1, (tty_world [])\<lparr>errno := EAGAIN\<rparr>)"
    by code_simp
  have we: "kk_posix_write_retry (tty_world [Fail E_INTR, Xfer 1, Fail E_IO, Xfer 5]) 1 ''ab''
     = Some (EIO, 1, (tty_world [Xfer 5])\<lparr>errno := EIO\<rparr>)"
    by code_simp
  have r4: "kk_posix_read_retry ?f 3 3
     = Some (0, 3, ''hel'',
         (file_world ''hello'' [Xfer 10])\<lparr>fdt := [(0, OTty), (1, OTty), (2, OTty), (3, OFile [''f''] 3 O_RDONLY)],
           errno := EAGAIN\<rparr>)"
    by code_simp
  have r8: "kk_posix_read_retry ?f 3 8
     = Some (0, 5, ''hello'',
         (file_world ''hello'' [])\<lparr>fdt := [(0, OTty), (1, OTty), (2, OTty), (3, OFile [''f''] 5 O_RDONLY)],
           errno := EAGAIN\<rparr>)"
    by code_simp
  note a = retry_transfer_terminates [where w = ?t and out = 1 and buf = "''ab''" and L = 3 and inp = 3]
  note b = retry_transfer_terminates [where w = ?f and out = 1 and buf = "''ab''" and L = 3 and inp = 3
      and p = "[''f'']" and off = 0 and mo = 420 and c = "''hello''"]
  from a b ht hf wr wc sw we r4 r8 show ?thesis by simp
qed

section \<open>Properties of the stat queries\<close>

lemma and_single_bit_nat: "(n AND 2 ^ k \<noteq> (0::nat)) = bit n k"
  by (metis and_exp_eq_0_iff_not_bit)

lemma perm_low:
  "(16384 + m mod 4096) div (16384::nat) = 1" "(32768 + m mod 4096) div (16384::nat) = 2"
  "(16384 + m mod 4096) div (32768::nat) = 0" "(32768 + m mod 4096) div (32768::nat) = 1"
proof -
  have lt: "m mod 4096 < 4096" by simp
  show "(16384 + m mod 4096) div (16384::nat) = 1" using lt by linarith
  show "(32768 + m mod 4096) div (16384::nat) = 2" using lt by linarith
  show "(16384 + m mod 4096) div (32768::nat) = 0" using lt by linarith
  show "(32768 + m mod 4096) div (32768::nat) = 1" using lt by linarith
qed

lemma mode_bits:
  "(st_mode (stat_of (Dir m)) AND S_IFDIR \<noteq> 0) = True"
  "(st_mode (stat_of (Reg m c)) AND S_IFDIR \<noteq> 0) = False"
  "(st_mode (stat_of (Dir m)) AND S_IFREG \<noteq> 0) = False"
  "(st_mode (stat_of (Reg m c)) AND S_IFREG \<noteq> 0) = True"
  "(st_mode stat_zero AND S_IFDIR \<noteq> 0) = False"
  "(st_mode stat_zero AND S_IFREG \<noteq> 0) = False"
  using and_single_bit_nat [of "16384 + m mod 4096" 14] and_single_bit_nat [of "32768 + m mod 4096" 14]
    and_single_bit_nat [of "16384 + m mod 4096" 15] and_single_bit_nat [of "32768 + m mod 4096" 15]
  by (simp_all add: bit_iff_odd perm_low stat_zero_def)

text \<open>
  C10. Whenever the underlying \<open>stat\<close> call fails on a path, \<open>kk_os_is_directory\<close>
  and \<open>kk_os_is_file\<close> both answer \<open>false\<close>. Their result is a boolean: there is no
  status through which the failure could reach the caller.
\<close>

theorem stat_failure_is_false:
  assumes "fst (sys_stat w path stat_zero) < 0"
  shows "fst (kk_os_is_directory w path) = False \<and> fst (kk_os_is_file w path) = False"
proof -
  from assms obtain e where r: "resolve w path = Inl e"
    by (auto simp: sys_stat_def split: sum.splits)
  have "0 < errno_of e" by (rule errno_of_pos)
  then show ?thesis
    by (simp add: kk_os_is_directory_def kk_os_is_file_def kk_posix_stat_def sys_stat_def r)
qed

theorem stat_failure_is_false_witness:
  "fst (sys_stat (tty_world []) ''nowhere'' stat_zero) < 0 \<and>
   fst (kk_os_is_directory (tty_world []) ''nowhere'') = False \<and>
   fst (kk_os_is_file (tty_world []) ''nowhere'') = False"
proof -
  have h: "fst (sys_stat (tty_world []) ''nowhere'' stat_zero) < 0"
    by (simp add: sys_stat_def resolve_def lookup_def path_of_def tty_world_def)
  from stat_failure_is_false [OF h] h show ?thesis by simp
qed

section \<open>Properties of \<open>kk_os_ensure_dir\<close>\<close>

lemma mode_bits_nf [simp]:
  "0 < (16384 + m mod 4096) AND (16384::nat)"
  "(32768 + m mod 4096) AND (16384::nat) = 0"
  "(16384 + m mod 4096) AND (32768::nat) = 0"
  "0 < (32768 + m mod 4096) AND (32768::nat)"
  "(16384 + m mod 4096) AND (16384::nat) \<noteq> 0"
  "(32768 + m mod 4096) AND (32768::nat) \<noteq> 0"
  using mode_bits(1-4) [of m] by simp_all

lemma lookup_simps [simp]:
  "lookup (w\<lparr>errno := e\<rparr>) p = lookup w p"
  "lookup w [] = Some (Dir 493)"
  by (auto simp: lookup_def)

lemma ensure_prefix_create:
  assumes "s \<noteq> []" "lookup w (path_of s) = None" "lookup w (butlast (path_of s)) = Some (Dir dm)"
  shows "ensure_prefix w s mode
     = (0, w\<lparr>fs := fs w @ [(path_of s, Dir (mode mod 4096))], errno := ENOENT\<rparr>)"
  using assms by (simp add: ensure_prefix_def sys_stat_def resolve_def sys_mkdir_def stat_zero_def)

lemma ensure_prefix_isdir:
  assumes "s \<noteq> []" "lookup w (path_of s) = Some (Dir dm)"
  shows "ensure_prefix w s mode = (0, w)"
  using assms by (simp add: ensure_prefix_def sys_stat_def resolve_def)

lemma ensure_prefix_isfile:
  assumes "s \<noteq> []" "lookup w (path_of s) = Some (Reg pm c)"
  shows "ensure_prefix w s mode = (0, w\<lparr>errno := EEXIST\<rparr>)"
  using assms by (simp add: ensure_prefix_def sys_stat_def resolve_def sys_mkdir_def)

lemma path_abc [simp]:
  "path_of ''a'' = [''a'']" "path_of ''a/b'' = [''a'', ''b'']" "path_of ''a/b/c'' = [''a'', ''b'', ''c'']"
  by (simp_all add: path_of_def)

lemma ensure_loop_at:
  "ensure_loop w cpath mode i =
     (let c = (if i < length cpath then cpath ! i else CHR 0x00);
          r = (if c = CHR 0x00 \<or> c = CHR ''/'' \<or> c = CHR 0x5C then
                 if take i cpath \<noteq> [] then ensure_prefix w (take i cpath) mode
                 else (0, w)
               else (0, w))
      in if fst r = 0 \<and> c \<noteq> CHR 0x00 then ensure_loop (snd r) cpath mode (i + 1) else r)"
  apply (subst ensure_loop.simps)
  apply (simp only: Let_def case_prod_beta prod.collapse)
  done

lemma ensure_loop_abc:
  "ensure_loop w ''a/b/c'' mode 0 =
     (let r1 = ensure_prefix w ''a'' mode in
      if fst r1 \<noteq> 0 then r1 else
        let r2 = ensure_prefix (snd r1) ''a/b'' mode in
        if fst r2 \<noteq> 0 then r2 else ensure_prefix (snd r2) ''a/b/c'' mode)"
proof -
  have e0: "ensure_loop w ''a/b/c'' mode 0 = ensure_loop w ''a/b/c'' mode 1" for w
    by (subst ensure_loop_at) simp
  have e1: "ensure_loop w ''a/b/c'' mode 1 =
      (let r = ensure_prefix w ''a'' mode in if fst r = 0 then ensure_loop (snd r) ''a/b/c'' mode 2 else r)" for w
    by (subst ensure_loop_at) (simp add: Let_def eval_nat_numeral)
  have e2: "ensure_loop w ''a/b/c'' mode 2 = ensure_loop w ''a/b/c'' mode 3" for w
    by (subst ensure_loop_at) (simp add: eval_nat_numeral)
  have e3: "ensure_loop w ''a/b/c'' mode 3 =
      (let r = ensure_prefix w ''a/b'' mode in if fst r = 0 then ensure_loop (snd r) ''a/b/c'' mode 4 else r)" for w
    by (subst ensure_loop_at) (simp add: Let_def eval_nat_numeral)
  have e4: "ensure_loop w ''a/b/c'' mode 4 = ensure_loop w ''a/b/c'' mode 5" for w
    by (subst ensure_loop_at) (simp add: eval_nat_numeral)
  have e5: "ensure_loop w ''a/b/c'' mode 5 = ensure_prefix w ''a/b/c'' mode" for w
    by (subst ensure_loop_at) (simp add: eval_nat_numeral)
  show ?thesis
    unfolding e0 e1 e2 e3 e4 e5 Let_def by simp
qed

text \<open>
  C5. In any world in which none of \<open>a\<close>, \<open>a/b\<close>, \<open>a/b/c\<close> exists,
  \<open>kk_os_ensure_dir\<close> on \<open>a/b/c\<close> returns 0 and adds exactly these three directories
  to the file system; called again on the resulting world it returns 0 and leaves the
  world as it is. When \<open>mkdir\<close> does report \<open>EEXIST\<close> (the last prefix exists but is
  not a directory), the status is 0 all the same and nothing is created.
\<close>

theorem ensure_dir_nested:
  "(lookup w [''a''] = None \<and> lookup w [''a'', ''b''] = None \<and>
    lookup w [''a'', ''b'', ''c''] = None \<longrightarrow>
      (let m = (if mode < 0 then 493 else nat mode) mod 4096;
           w' = w\<lparr>fs := fs w @ [([''a''], Dir m), ([''a'', ''b''], Dir m), ([''a'', ''b'', ''c''], Dir m)],
                  errno := ENOENT\<rparr>
       in kk_os_ensure_dir w ''a/b/c'' mode = (0, w') \<and>
          kk_os_ensure_dir w' ''a/b/c'' mode = (0, w'))) \<and>
   (lookup w [''a''] = Some (Dir da) \<and> lookup w [''a'', ''b''] = Some (Dir db) \<and>
    lookup w [''a'', ''b'', ''c''] = Some (Reg pm c) \<longrightarrow>
      kk_os_ensure_dir w ''a/b/c'' mode = (0, w\<lparr>errno := EEXIST\<rparr>))"
proof (intro conjI impI)
  assume assms: "lookup w [''a''] = None \<and> lookup w [''a'', ''b''] = None \<and>
    lookup w [''a'', ''b'', ''c''] = None"
  define md where "md = (if mode < 0 then 493 else nat mode)"
  define m where "m = md mod 4096"
  define w1 where "w1 = w\<lparr>fs := fs w @ [([''a''], Dir m)], errno := ENOENT\<rparr>"
  define w2 where "w2 = w1\<lparr>fs := fs w1 @ [([''a'', ''b''], Dir m)], errno := ENOENT\<rparr>"
  define w3 where "w3 = w2\<lparr>fs := fs w2 @ [([''a'', ''b'', ''c''], Dir m)], errno := ENOENT\<rparr>"
  have p1: "ensure_prefix w ''a'' md = (0, w1)"
    using assms ensure_prefix_create [of "''a''" w 493 md] by (simp add: w1_def m_def lookup_def)
  have p2: "ensure_prefix w1 ''a/b'' md = (0, w2)"
    using assms ensure_prefix_create [of "''a/b''" w1 m md]
    by (simp add: w2_def w1_def m_def lookup_def map_add_def)
  have p3: "ensure_prefix w2 ''a/b/c'' md = (0, w3)"
    using assms ensure_prefix_create [of "''a/b/c''" w2 m md]
    by (simp add: w3_def w2_def w1_def m_def lookup_def map_add_def)
  have first: "kk_os_ensure_dir w ''a/b/c'' mode = (0, w3)"
    unfolding kk_os_ensure_dir_def Let_def md_def [symmetric] ensure_loop_abc p1 snd_conv fst_conv
    by (simp add: p2 p3)
  have q1: "ensure_prefix w3 ''a'' md = (0, w3)"
    using assms ensure_prefix_isdir [of "''a''" w3 m md]
    by (simp add: w3_def w2_def w1_def lookup_def map_add_def)
  have q2: "ensure_prefix w3 ''a/b'' md = (0, w3)"
    using assms ensure_prefix_isdir [of "''a/b''" w3 m md]
    by (simp add: w3_def w2_def w1_def lookup_def map_add_def)
  have q3: "ensure_prefix w3 ''a/b/c'' md = (0, w3)"
    using assms ensure_prefix_isdir [of "''a/b/c''" w3 m md]
    by (simp add: w3_def w2_def w1_def lookup_def map_add_def)
  have second: "kk_os_ensure_dir w3 ''a/b/c'' mode = (0, w3)"
    unfolding kk_os_ensure_dir_def Let_def md_def [symmetric] ensure_loop_abc q1 snd_conv fst_conv
    by (simp add: q2 q3)
  have "w3 = w\<lparr>fs := fs w @ [([''a''], Dir m), ([''a'', ''b''], Dir m), ([''a'', ''b'', ''c''], Dir m)],
                    errno := ENOENT\<rparr>"
    by (simp add: w3_def w2_def w1_def)
  with first second show "let m = (if mode < 0 then 493 else nat mode) mod 4096;
           w' = w\<lparr>fs := fs w @ [([''a''], Dir m), ([''a'', ''b''], Dir m), ([''a'', ''b'', ''c''], Dir m)],
                  errno := ENOENT\<rparr>
       in kk_os_ensure_dir w ''a/b/c'' mode = (0, w') \<and>
          kk_os_ensure_dir w' ''a/b/c'' mode = (0, w')"
    by (simp add: Let_def m_def md_def)
next
  assume assms: "lookup w [''a''] = Some (Dir da) \<and> lookup w [''a'', ''b''] = Some (Dir db) \<and>
    lookup w [''a'', ''b'', ''c''] = Some (Reg pm c)"
  define md where "md = (if mode < 0 then 493 else nat mode)"
  have r1: "ensure_prefix w ''a'' md = (0, w)"
    using assms ensure_prefix_isdir [of "''a''" w da md] by simp
  have r2: "ensure_prefix w ''a/b'' md = (0, w)"
    using assms ensure_prefix_isdir [of "''a/b''" w db md] by simp
  have r3: "ensure_prefix w ''a/b/c'' md = (0, w\<lparr>errno := EEXIST\<rparr>)"
    using assms ensure_prefix_isfile [of "''a/b/c''" w pm c md] by simp
  show "kk_os_ensure_dir w ''a/b/c'' mode = (0, w\<lparr>errno := EEXIST\<rparr>)"
    unfolding kk_os_ensure_dir_def Let_def md_def [symmetric] ensure_loop_abc r1 snd_conv fst_conv
    by (simp add: r2 r3)
qed

theorem ensure_dir_nested_witness:
  "lookup (tty_world []) [''a''] = None \<and> lookup (tty_world []) [''a'', ''b''] = None \<and>
   lookup (tty_world []) [''a'', ''b'', ''c''] = None \<and>
   kk_os_ensure_dir (tty_world []) ''a/b/c'' (-1)
     = (0, (tty_world [])\<lparr>fs := [([''a''], Dir 493), ([''a'', ''b''], Dir 493), ([''a'', ''b'', ''c''], Dir 493)],
             errno := ENOENT\<rparr>) \<and>
   kk_os_ensure_dir ((tty_world [])\<lparr>fs := [([''a''], Dir 493), ([''a'', ''b''], Dir 493), ([''a'', ''b'', ''c''], Dir 493)],
             errno := ENOENT\<rparr>) ''a/b/c'' (-1)
     = (0, (tty_world [])\<lparr>fs := [([''a''], Dir 493), ([''a'', ''b''], Dir 493), ([''a'', ''b'', ''c''], Dir 493)],
             errno := ENOENT\<rparr>) \<and>
   lookup abc_world [''a''] = Some (Dir 493) \<and> lookup abc_world [''a'', ''b''] = Some (Dir 493) \<and>
   lookup abc_world [''a'', ''b'', ''c''] = Some (Reg 420 ''x'') \<and>
   kk_os_ensure_dir abc_world ''a/b/c'' (-1) = (0, abc_world\<lparr>errno := EEXIST\<rparr>)"
proof -
  have h1: "lookup (tty_world []) [''a''] = None \<and> lookup (tty_world []) [''a'', ''b''] = None \<and>
   lookup (tty_world []) [''a'', ''b'', ''c''] = None"
    by (simp add: lookup_def tty_world_def)
  have h2: "lookup abc_world [''a''] = Some (Dir 493) \<and> lookup abc_world [''a'', ''b''] = Some (Dir 493) \<and>
   lookup abc_world [''a'', ''b'', ''c''] = Some (Reg 420 ''x'')"
    by (simp add: lookup_def abc_world_def)
  have fs0: "fs (tty_world []) = []" by (simp add: tty_world_def)
  from ensure_dir_nested [where w = "tty_world []" and mode = "-1"] h1
    ensure_dir_nested [where w = abc_world and mode = "-1" and da = 493 and db = 493
      and pm = 420 and c = "''x''"] h2 fs0
  show ?thesis by (simp add: Let_def)
qed

section \<open>Properties of search-path resolution\<close>

lemma resolve_errno [simp]: "resolve (w\<lparr>errno := e\<rparr>) s = resolve w s"
  by (auto simp: resolve_def split: option.splits)

lemma is_reg_errno [simp]: "is_reg (w\<lparr>errno := e\<rparr>) s = is_reg w s"
  by (simp add: is_reg_def)

lemma kk_os_is_file_eq:
  "kk_os_is_file w s =
     (is_reg w s, (case resolve w s of Inl e \<Rightarrow> w\<lparr>errno := errno_of e\<rparr> | Inr nd \<Rightarrow> w))"
proof (cases "resolve w s")
  case (Inl e)
  have "0 < errno_of e" by (rule errno_of_pos)
  with Inl show ?thesis
    by (simp add: kk_os_is_file_def kk_posix_stat_def sys_stat_def is_reg_def)
next
  case (Inr nd)
  then show ?thesis
    by (cases nd) (simp_all add: kk_os_is_file_def kk_posix_stat_def sys_stat_def is_reg_def)
qed

lemma kk_os_realpath_eq:
  "fst (kk_os_realpath w s) = (case resolve w s of Inl e \<Rightarrow> s | Inr nd \<Rightarrow> canonical (path_of s))"
  by (simp add: kk_os_realpath_def sys_realpath_def split: sum.splits)

lemma searchpath_loop_step:
  "searchpath_loop w p fname =
     (if p \<noteq> [] then
        let plen = length (takeWhile (\<lambda>c. c \<noteq> KK_PATH_SEP) p);
            sfname = take plen p @ ''/'' @ fname;
            p' = (if plen = length p then [] else drop (plen + 1) p)
        in if fst (kk_os_is_file w sfname) then kk_os_realpath (snd (kk_os_is_file w sfname)) sfname
           else searchpath_loop (snd (kk_os_is_file w sfname)) p' fname
      else ([], w))"
  apply (subst searchpath_loop.simps)
  apply (simp only: Let_def case_prod_beta)
  done

lemma join_paths_Cons:
  "CHR '':'' \<notin> set s \<Longrightarrow>
     takeWhile (\<lambda>c. c \<noteq> CHR '':'') (join_paths (s # ss)) = s \<and>
     (if length s = length (join_paths (s # ss)) then [] else drop (length s + 1) (join_paths (s # ss)))
       = join_paths ss"
  by (cases ss) (auto simp: takeWhile_tail takeWhile_eq_all_conv)

lemma searchpath_loop_join:
  assumes "\<forall>s \<in> set segs. CHR '':'' \<notin> set s" "segs \<noteq> [] \<longrightarrow> last segs \<noteq> []"
  shows "fst (searchpath_loop w (join_paths segs) fname) =
     (case find (\<lambda>s. is_reg w (s @ ''/'' @ fname)) segs of
        Some s \<Rightarrow> canonical (path_of (s @ ''/'' @ fname))
      | None \<Rightarrow> [])"
  using assms
proof (induction segs arbitrary: w)
  case Nil
  then show ?case by (subst searchpath_loop_step) simp
next
  case (Cons s ss)
  let ?p = "join_paths (s # ss)"
  let ?cand = "s @ ''/'' @ fname"
  have nosep: "CHR '':'' \<notin> set s" using Cons.prems(1) by simp
  have ne: "?p \<noteq> []" using Cons.prems(2) by (cases ss) auto
  note jp = join_paths_Cons [OF nosep, of ss]
  have tw: "takeWhile (\<lambda>c. c \<noteq> KK_PATH_SEP) ?p = s" using jp by simp
  have tk: "take (length s) ?p = s" by (cases ss) auto
  have rest: "(if length s = length ?p then [] else drop (length s + 1) ?p) = join_paths ss"
    using jp by simp
  have step: "searchpath_loop w ?p fname =
      (if is_reg w ?cand then kk_os_realpath (snd (kk_os_is_file w ?cand)) ?cand
       else searchpath_loop (snd (kk_os_is_file w ?cand)) (join_paths ss) fname)"
    using ne by (subst searchpath_loop_step) (simp only: Let_def tw tk rest kk_os_is_file_eq fst_conv simp_thms if_True if_False)
  show ?case
  proof (cases "is_reg w ?cand")
    case True
    then obtain m c where "resolve w ?cand = Inr (Reg m c)"
      by (auto simp: is_reg_def split: sum.splits node.splits)
    with True step show ?thesis
      by (simp add: kk_os_realpath_eq kk_os_is_file_eq)
  next
    case False
    have IH: "fst (searchpath_loop w1 (join_paths ss) fname) =
       (case find (\<lambda>s. is_reg w1 (s @ ''/'' @ fname)) ss of
          Some s \<Rightarrow> canonical (path_of (s @ ''/'' @ fname)) | None \<Rightarrow> [])" for w1
      using Cons.prems by (intro Cons.IH) auto
    from False step IH show ?thesis
      by (auto simp: kk_os_is_file_eq split: sum.splits)
  qed
qed

lemma resolve_fs: "fs w' = fs w \<Longrightarrow> resolve w' s = resolve w s"
  by (auto simp: resolve_def lookup_def split: option.splits)

lemma fs_is_file [simp]: "fs (snd (kk_os_is_file w s)) = fs w"
  by (simp add: kk_os_is_file_eq split: sum.splits)

lemma fs_realpath [simp]: "fs (snd (kk_os_realpath w s)) = fs w"
  by (simp add: kk_os_realpath_def sys_realpath_def split: sum.splits)

lemma fs_searchpath_loop: "fs (snd (searchpath_loop w p fname)) = fs w"
proof (induction "length p" arbitrary: w p rule: less_induct)
  case less
  show ?case
  proof (cases "p = []")
    case True
    then show ?thesis by (subst searchpath_loop_step) simp
  next
    case False
    define p' where "p' = (if length (takeWhile (\<lambda>c. c \<noteq> KK_PATH_SEP) p) = length p then []
       else drop (length (takeWhile (\<lambda>c. c \<noteq> KK_PATH_SEP) p) + 1) p)"
    define cand where "cand = take (length (takeWhile (\<lambda>c. c \<noteq> KK_PATH_SEP) p)) p @ ''/'' @ fname"
    have "length p' < length p" using False by (auto simp: p'_def)
    note IH = less [OF this]
    have step: "searchpath_loop w p fname =
       (if fst (kk_os_is_file w cand) then kk_os_realpath (snd (kk_os_is_file w cand)) cand
        else searchpath_loop (snd (kk_os_is_file w cand)) p' fname)"
      using False
      by (subst searchpath_loop_step)
         (simp only: Let_def p'_def [symmetric] cand_def [symmetric] if_True simp_thms)
    show ?thesis
      unfolding step using IH by simp
  qed
qed

text \<open>
  C8. With \<open>PATH\<close> set to \<open>/x:/y\<close> and \<open>tool\<close> a regular file under \<open>/y\<close> but not
  under \<open>/x\<close>, the search and the generic application path both return \<open>/y/tool\<close>, the
  canonical form of the candidate. In general, for segments without the separator (the
  last one not empty) and a bare name, the result is the canonical form of
  \<open>segment/name\<close> for the first segment, in list order, whose candidate is a regular
  file; when there is none the search returns the empty string and the application
  path is \<open>kk_os_realpath\<close> of the bare name.
\<close>

theorem searchpath_first_match:
  "(\<not> oom w \<and> \<not> is_reg w ''/x/tool'' \<and> lookup w [''y'', ''tool''] = Some (Reg m c) \<longrightarrow>
      fst (kk_os_searchpathx w (Some ''/x:/y'') (Some ''tool'')) = ''/y/tool'' \<and>
      fst (kk_os_app_path_generic w [''tool''] (Some ''/x:/y'')) = ''/y/tool'') \<and>
   (\<not> oom w \<and> fname \<noteq> [] \<and> CHR ''/'' \<notin> set fname \<and>
    (\<forall>s \<in> set segs. CHR '':'' \<notin> set s) \<and> (segs \<noteq> [] \<longrightarrow> last segs \<noteq> []) \<longrightarrow>
      fst (kk_os_searchpathx w (Some (join_paths segs)) (Some fname)) =
        (case find (\<lambda>s. is_reg w (s @ ''/'' @ fname)) segs of
           Some s \<Rightarrow> canonical (path_of (s @ ''/'' @ fname))
         | None \<Rightarrow> []) \<and>
      fst (kk_os_app_path_generic w [fname] (Some (join_paths segs))) =
        (case find (\<lambda>s. is_reg w (s @ ''/'' @ fname)) segs of
           Some s \<Rightarrow> canonical (path_of (s @ ''/'' @ fname))
         | None \<Rightarrow> fst (kk_os_realpath w fname)))"
proof -
  have general: "fst (kk_os_searchpathx w (Some (join_paths segs)) (Some fname)) =
        (case find (\<lambda>s. is_reg w (s @ ''/'' @ fname)) segs of
           Some s \<Rightarrow> canonical (path_of (s @ ''/'' @ fname))
         | None \<Rightarrow> []) \<and>
      fst (kk_os_app_path_generic w [fname] (Some (join_paths segs))) =
        (case find (\<lambda>s. is_reg w (s @ ''/'' @ fname)) segs of
           Some s \<Rightarrow> canonical (path_of (s @ ''/'' @ fname))
         | None \<Rightarrow> fst (kk_os_realpath w fname))"
    if h: "\<not> oom w" "fname \<noteq> []" "CHR ''/'' \<notin> set fname"
      "\<forall>s \<in> set segs. CHR '':'' \<notin> set s" "segs \<noteq> [] \<longrightarrow> last segs \<noteq> []"
    for fname segs
  proof -
    let ?hit = "find (\<lambda>s. is_reg w (s @ ''/'' @ fname)) segs"
    have sx: "kk_os_searchpathx w (Some (join_paths segs)) (Some fname)
        = searchpath_loop w (join_paths segs) fname"
      using h(1,2) by (simp add: kk_os_searchpathx_def kk_malloc_fails_def)
    have loop: "fst (searchpath_loop w (join_paths segs) fname) =
        (case ?hit of Some s \<Rightarrow> canonical (path_of (s @ ''/'' @ fname)) | None \<Rightarrow> [])"
      using h(4,5) by (rule searchpath_loop_join)
    have canon_ne: "canonical p \<noteq> []" for p
      by (cases p) (simp_all add: canonical_def)
    have hd: "hd fname \<noteq> CHR ''/''" using h(2,3) by (cases fname) auto
    have rp: "fst (kk_os_realpath (snd (searchpath_loop w (join_paths segs) fname)) fname)
        = fst (kk_os_realpath w fname)"
      by (simp add: kk_os_realpath_eq resolve_fs [OF fs_searchpath_loop])
    have app: "fst (kk_os_app_path_generic w [fname] (Some (join_paths segs))) =
        (case ?hit of Some s \<Rightarrow> canonical (path_of (s @ ''/'' @ fname))
         | None \<Rightarrow> fst (kk_os_realpath w fname))"
    proof (cases ?hit)
      case None
      with loop have "fst (searchpath_loop w (join_paths segs) fname) = []" by simp
      with None h(2,3) hd rp show ?thesis
        by (simp add: kk_os_app_path_generic_def sx case_prod_beta)
    next
      case (Some s)
      with loop have "fst (searchpath_loop w (join_paths segs) fname) = canonical (path_of (s @ ''/'' @ fname))"
        by simp
      with Some h(2,3) hd canon_ne show ?thesis
        by (simp add: kk_os_app_path_generic_def sx case_prod_beta)
    qed
    from sx loop app show ?thesis by simp
  qed
  have example: "fst (kk_os_searchpathx w (Some ''/x:/y'') (Some ''tool'')) = ''/y/tool'' \<and>
      fst (kk_os_app_path_generic w [''tool''] (Some ''/x:/y'')) = ''/y/tool''"
    if h: "\<not> oom w" "\<not> is_reg w ''/x/tool''" "lookup w [''y'', ''tool''] = Some (Reg m c)"
  proof -
    have y: "is_reg w ''/y/tool''"
      using h(3) by (simp add: is_reg_def resolve_def path_of_def)
    have "canonical (path_of ''/y/tool'') = ''/y/tool''"
      by (simp add: canonical_def path_of_def)
    with general [of "''tool''" "[''/x'', ''/y'']"] h(1,2) y show ?thesis by simp
  qed
  from general example show ?thesis by blast
qed

theorem searchpath_first_match_witness:
  "\<not> oom tool_world \<and> \<not> is_reg tool_world ''/x/tool'' \<and>
   lookup tool_world [''y'', ''tool''] = Some (Reg 493 ''#!'') \<and>
   fst (kk_os_searchpathx tool_world (Some ''/x:/y'') (Some ''tool'')) = ''/y/tool'' \<and>
   fst (kk_os_app_path_generic tool_world [''tool''] (Some ''/x:/y'')) = ''/y/tool'' \<and>
   ''nothere'' \<noteq> [] \<and> CHR ''/'' \<notin> set ''nothere'' \<and>
   CHR '':'' \<notin> set ''/x'' \<and> CHR '':'' \<notin> set ''/y'' \<and> last [''/x'', ''/y''] \<noteq> [] \<and>
   fst (kk_os_searchpathx tool_world (Some (join_paths [''/x'', ''/y''])) (Some ''nothere'')) = [] \<and>
   fst (kk_os_app_path_generic tool_world [''nothere''] (Some (join_paths [''/x'', ''/y''])))
     = ''nothere''"
proof -
  have h1: "\<not> oom tool_world \<and> \<not> is_reg tool_world ''/x/tool'' \<and>
      lookup tool_world [''y'', ''tool''] = Some (Reg 493 ''#!'')"
    by (simp add: tool_world_def is_reg_def resolve_def lookup_def path_of_def)
  have h2: "\<not> is_reg tool_world ''/x/nothere''" "\<not> is_reg tool_world ''/y/nothere''"
    "fst (kk_os_realpath tool_world ''nothere'') = ''nothere''"
    by (simp_all add: tool_world_def is_reg_def resolve_def lookup_def path_of_def kk_os_realpath_eq)
  from searchpath_first_match [where w = tool_world and m = 493 and c = "''#!''"
      and fname = "''nothere''" and segs = "[''/x'', ''/y'']"] h1 h2
  show ?thesis by simp
qed

section \<open>Properties of the Copy Engine\<close>

lemma generic_copy_loop_step:
  "generic_copy_loop w inp out buflen todo =
     (if todo > 0 then
        case kk_posix_read_retry w inp (if todo > buflen then buflen else todo) of
          None \<Rightarrow> None
        | Some (err, read_count, buf, w1) \<Rightarrow>
            if err \<noteq> 0 \<or> read_count = 0 then Some (err, w1)
            else
              (case kk_posix_write_retry w1 out (take read_count buf) of
                 None \<Rightarrow> None
               | Some (err, write_count, w2) \<Rightarrow>
                   if err \<noteq> 0 then Some (err, w2)
                   else generic_copy_loop w2 inp out buflen (todo - read_count))
      else Some (0, w))"
  apply (subst generic_copy_loop.simps)
  apply (simp only: Let_def)
  done

section \<open>Properties of \<open>kk_os_list_directory\<close>\<close>

lemma take_Suc_update: "n < length xs \<Longrightarrow> take (Suc n) (xs[n := x]) = take n xs @ [x]"
  by (simp add: take_Suc_conv_app_nth)

lemma grow_push:
  "0 < k \<Longrightarrow> take (Suc (length vec)) ((vec @ replicate k d)[length vec := x]) = vec @ [x]"
  by (cases k) (simp_all add: list_update_append)

lemma push_name_inv:
  assumes "count \<le> len" "length vec = len" "0 < len"
    and "push_name entry count len vec = (count1, len1, vec1)"
  shows "count1 = count + length (filter real_name [entry]) \<and> count1 \<le> len1 \<and>
         length vec1 = len1 \<and> 0 < len1 \<and>
         take count1 vec1 = take count vec @ map Box_string (filter real_name [entry])"
proof (cases "real_name entry")
  case False
  with assms show ?thesis by (simp add: push_name_def real_name_def)
next
  case True
  then have nm: "os_direntry_name entry = entry" "entry \<noteq> []"
    by (auto simp: real_name_def os_direntry_name_def split: if_splits)
  show ?thesis
  proof (cases "count = len")
    case full: True
    have "vec \<noteq> []" "Suc 0 \<le> length vec" using assms by auto
    with full assms True nm show ?thesis
      by (auto simp: push_name_def real_name_def kk_vector_realloc_def grow_push Let_def)
  next
    case False
    with assms True nm show ?thesis
      by (auto simp: push_name_def real_name_def take_Suc_update Let_def)
  qed
qed

lemma list_loop_push:
  "list_loop w d entry count len vec =
     (case push_name entry count len vec of
        (count1, len1, vec1) \<Rightarrow>
          (case os_findnext w d of
             (Some entry', d', err, w') \<Rightarrow> list_loop w' d' entry' count1 len1 vec1
           | (None, d', err, w') \<Rightarrow> (err, count1, vec1, w')))"
  unfolding push_name_def
  by (subst list_loop.simps) (simp add: Let_def case_prod_beta split: option.splits)

lemma list_loop_result:
  assumes "count \<le> len" "length vec = len" "0 < len"
  shows "\<exists>vec'. list_loop w d entry count len vec =
           ((if errno w = ENOENT then 0 else errno w),
            count + length (filter real_name (entry # d)), vec', w) \<and>
         count + length (filter real_name (entry # d)) \<le> length vec' \<and>
         take (count + length (filter real_name (entry # d))) vec' =
           take count vec @ map Box_string (filter real_name (entry # d))"
  using assms
proof (induction d arbitrary: entry count len vec)
  case Nil
  obtain count1 len1 vec1 where p: "push_name entry count len vec = (count1, len1, vec1)"
    by (cases "push_name entry count len vec") auto
  have run: "list_loop w [] entry count len vec
      = ((if errno w = ENOENT then 0 else errno w), count1, vec1, w)"
    by (subst list_loop_push) (simp add: p os_findnext_def sys_readdir_def)
  from push_name_inv [OF Nil p] show ?case
    unfolding run by (cases "real_name entry") auto
next
  case (Cons e d)
  obtain count1 len1 vec1 where p: "push_name entry count len vec = (count1, len1, vec1)"
    by (cases "push_name entry count len vec") auto
  note inv = push_name_inv [OF Cons.prems p]
  from inv have pre: "count1 \<le> len1" "length vec1 = len1" "0 < len1" by simp_all
  from Cons.IH [OF pre, of e] obtain vec' where
    r: "list_loop w d e count1 len1 vec1 =
           ((if errno w = ENOENT then 0 else errno w),
            count1 + length (filter real_name (e # d)), vec', w)"
    and l: "count1 + length (filter real_name (e # d)) \<le> length vec'"
    and t: "take (count1 + length (filter real_name (e # d))) vec' =
           take count1 vec1 @ map Box_string (filter real_name (e # d))"
    by blast
  have step: "list_loop w (e # d) entry count len vec = list_loop w d e count1 len1 vec1"
    by (subst list_loop_push) (simp add: p os_findnext_def sys_readdir_def)
  have cnt: "count + length (filter real_name (entry # e # d))
      = count1 + length (filter real_name (e # d))"
    using inv by (cases "real_name entry") auto
  have "take count1 vec1 @ map Box_string (filter real_name (e # d))
      = take count vec @ map Box_string (filter real_name (entry # e # d))"
    using inv by (cases "real_name entry") auto
  with r l t step cnt show ?case by metis
qed

text \<open>
  What \<open>kk_os_list_directory\<close> returns for a directory, whatever the number of its
  entries and however often the vector had to grow: the names of the children in
  stream order without the pseudo-entries, and as status the value that \<open>errno\<close> had
  before the call, unless that was \<open>ENOENT\<close>.
\<close>

lemma list_directory_contents:
  assumes "resolve w dir = Inr (Dir m)"
  shows "kk_os_list_directory w dir =
     ((if errno w = ENOENT then 0 else errno w),
      map Box_string (filter real_name (children w (path_of dir))), w)"
proof -
  let ?ch = "children w (path_of dir)"
  have ff: "os_findfirst w dir = (Some ''.'', ''..'' # ?ch, 0, w)"
    using assms by (simp add: os_findfirst_def sys_opendir_def os_findnext_def sys_readdir_def)
  have names: "filter real_name (''.'' # ''..'' # ?ch) = filter real_name ?ch"
    by (simp add: real_name_def os_direntry_name_def)
  from list_loop_result [of 0 100 "kk_vector_alloc 100 (Box_int 0)" w "''..'' # ?ch" "''.''"]
  obtain vec' where
    r: "list_loop w (''..'' # ?ch) ''.'' 0 100 (kk_vector_alloc 100 (Box_int 0)) =
           ((if errno w = ENOENT then 0 else errno w), length (filter real_name ?ch), vec', w)"
    and l: "length (filter real_name ?ch) \<le> length vec'"
    and t: "take (length (filter real_name ?ch)) vec' = map Box_string (filter real_name ?ch)"
    unfolding names by (auto simp: kk_vector_alloc_def)
  from l t have "kk_vector_realloc vec' (length (filter real_name ?ch)) Box_null
      = map Box_string (filter real_name ?ch)"
    by (simp add: kk_vector_realloc_def)
  with r show ?thesis
    by (simp add: kk_os_list_directory_def ff)
qed

text \<open>
  C4 fails on the code in its status. Listing the regular file \<open>f\<close> fails with
  \<open>ENOTDIR\<close> and leaves that value in \<open>errno\<close>. Listing the empty directory \<open>d\<close>
  afterwards returns the empty sequence, but with status \<open>ENOTDIR\<close>: at the end of the
  stream \<open>readdir\<close> returns \<open>NULL\<close> without touching \<open>errno\<close>, and \<open>os_findnext\<close> reports
  whatever \<open>errno\<close> holds. With \<open>errno\<close> 0 before the call the status is 0.
\<close>

theorem list_directory_stale_errno:
  "kk_os_list_directory (dir_world 0) ''f'' = (ENOTDIR, [], dir_world ENOTDIR) \<and>
   kk_os_list_directory (dir_world ENOTDIR) ''d'' = (ENOTDIR, [], dir_world ENOTDIR) \<and>
   kk_os_list_directory (dir_world 0) ''d'' = (0, [], dir_world 0)"
proof -
  have f: "resolve (dir_world e) ''f'' = Inr (Reg 420 ''x'')" for e
    by (simp add: resolve_def lookup_def path_of_def dir_world_def)
  have d: "resolve (dir_world e) ''d'' = Inr (Dir 493)" for e
    by (simp add: resolve_def lookup_def path_of_def dir_world_def)
  have ch: "children (dir_world e) (path_of ''d'') = []" for e
    by (simp add: children_def path_of_def dir_world_def)
  have 1: "kk_os_list_directory (dir_world 0) ''f'' = (ENOTDIR, [], dir_world ENOTDIR)"
    by (simp add: kk_os_list_directory_def os_findfirst_def sys_opendir_def kk_vector_empty_def
          resolve_def lookup_def path_of_def dir_world_def)
  from list_directory_contents [OF d [of ENOTDIR]] list_directory_contents [OF d [of 0]] 1
  show ?thesis by (simp add: ch) (simp add: dir_world_def)
qed

section \<open>Opening a path that does not exist\<close>

text \<open>
  \<open>kk_posix_open\<close> turns the \<open>-1\<close> of a failed \<open>open\<close> into \<open>errno\<close>, a positive number.
  Its callers test the result for \<open>< 0\<close>, which never holds, and go on with the error
  number as if it were a descriptor.
\<close>

lemma free_fd_unused: "map_of t (free_fd t) = None"
proof (cases "filter (\<lambda>i. map_of t i = None) (map int [0..<Suc (length t)])")
  case (Cons i rest)
  then have "i \<in> set (filter (\<lambda>i. map_of t i = None) (map int [0..<Suc (length t)]))" by simp
  then have "map_of t i = None" by (simp del: upt_Suc)
  with Cons show ?thesis by (simp add: free_fd_def)
next
  case Nil
  then have all: "\<forall>n < Suc (length t). map_of t (int n) \<noteq> None"
    by (auto simp: filter_empty_conv simp del: upt_Suc)
  have "int ` {..<Suc (length t)} \<subseteq> fst ` set t"
  proof
    fix x assume "x \<in> int ` {..<Suc (length t)}"
    then obtain n where n: "x = int n" "n < Suc (length t)" by auto
    with all obtain v where "map_of t x = Some v" by auto
    then have "(x, v) \<in> set t" by (rule map_of_SomeD)
    then show "x \<in> fst ` set t" by force
  qed
  then have "card (int ` {..<Suc (length t)}) \<le> card (fst ` set t)"
    by (intro card_mono) auto
  moreover have "card (int ` {..<Suc (length t)}) = Suc (length t)"
    by (simp add: card_image)
  moreover have "card (fst ` set t) \<le> length t"
    by (metis card_image_le card_length le_trans List.finite_set)
  ultimately show ?thesis by simp
qed

lemma free_fd_nonneg: "0 \<le> free_fd t"
proof (cases "filter (\<lambda>i. map_of t i = None) (map int [0..<Suc (length t)])")
  case Nil
  then show ?thesis by (simp add: free_fd_def)
next
  case (Cons i rest)
  then have "i \<in> set (filter (\<lambda>i. map_of t i = None) (map int [0..<Suc (length t)]))" by simp
  then have "0 \<le> i" by (auto simp del: upt_Suc)
  with Cons show ?thesis by (simp add: free_fd_def)
qed

lemma map_of_filter_neq:
  "map_of (filter (\<lambda>(k, v). k \<noteq> a) t) b = (if b = a then None else map_of t b)"
  by (induction t) auto

lemma copy_nothing:
  "\<not> oom w \<Longrightarrow> kk_posix_copy_file w inp out 0 = Some (0, w)"
  by (simp add: kk_posix_copy_file_def generic_copy_loop_step kk_malloc_fails_def)

text \<open>
  C2 fails on the code. Take any world in which the source does not resolve (error
  \<open>e\<close>), the descriptor whose number equals \<open>errno_of e\<close> is open on the terminal (for
  \<open>ENOENT\<close> that is descriptor 2, standard error), the destination does not exist, its
  parent directory does, and memory is available. Then \<open>kk_os_copy_file\<close>, in the build
  that copies with \<open>kk_posix_copy_file\<close>, returns status 0, not \<open>ENOENT\<close>, and the
  destination exists afterwards as an empty file.
\<close>

theorem copy_missing_source_creates_dest:
  assumes src: "resolve w from = Inl e"
    and fd: "map_of (fdt w) (errno_of e) = Some OTty"
    and dst: "to \<noteq> []" "lookup w (path_of to) = None"
      "lookup w (butlast (path_of to)) = Some (Dir dm)"
    and mem: "\<not> oom w"
  shows "\<exists>w'. kk_os_copy_file Other_unix w from to pm = Some (0, w') \<and>
           lookup w' (path_of to) = Some (Reg 400 [])"
proof -
  let ?inp = "errno_of e"
  let ?out = "free_fd (fdt w)"
  let ?p = "path_of to"
  define w1 where "w1 = w\<lparr>errno := ?inp\<rparr>"
  define w3 where "w3 = w1\<lparr>fs := fs w @ [(?p, Reg 400 [])],
                       fdt := fdt w @ [(?out, OFile ?p 0 O_WRONLY)]\<rparr>"
  define w4 where "w4 = w3\<lparr>fdt := filter (\<lambda>(k, f). k \<noteq> ?inp) (fdt w3)\<rparr>"
  define w6 where "w6 = w4\<lparr>fdt := filter (\<lambda>(k, f). k \<noteq> ?out) (fdt w4)\<rparr>"
  have pos: "0 < ?inp" by (rule errno_of_pos)
  have unused: "map_of (fdt w) ?out = None" by (rule free_fd_unused)
  have neq: "?out \<noteq> ?inp" using unused fd by auto
  have nonneg: "0 \<le> ?out" by (rule free_fd_nonneg)
  have p_ne: "?p \<noteq> []" using dst(2) by (auto simp: lookup_def)
  have op: "kk_posix_open w from 0 = (?inp, w1)"
    using src pos by (simp add: kk_posix_open_def sys_open_def w1_def)
  have st: "sys_fstat w1 ?inp stat_zero = (0, \<lparr>st_mode = S_IFCHR + 400, st_size = 0\<rparr>, w1)"
    using fd by (simp add: sys_fstat_def w1_def)
  have cr: "kk_posix_creat w1 to 8592 = (?out, w3)"
    using dst by (simp add: kk_posix_creat_def sys_creat_def w1_def w3_def Let_def)
  have cp: "kk_posix_copy_file w3 ?inp ?out 0 = Some (0, w3)"
    using mem by (intro copy_nothing) (simp add: w3_def w1_def)
  have c1: "sys_close w3 ?inp = (0, w4)"
    using fd by (simp add: sys_close_def w3_def w1_def w4_def map_add_def)
  have c2: "sys_close w4 ?out = (0, w6)"
    using neq unused
    by (simp add: sys_close_def w4_def w3_def w1_def w6_def map_of_filter_neq map_add_def)
  have run: "kk_os_copy_file Other_unix w from to pm = Some (0, w6)"
    using pos nonneg
    by (simp add: kk_os_copy_file_def op st cr cp c1 c2)
  have "lookup w6 ?p = Some (Reg 400 [])"
    using dst(2) p_ne by (simp add: lookup_def w6_def w4_def w3_def w1_def map_add_def)
  with run show ?thesis by blast
qed

theorem copy_missing_source_creates_dest_witness:
  "resolve (tty_world []) ''missing'' = Inl E_NOENT \<and>
   map_of (fdt (tty_world [])) (errno_of E_NOENT) = Some OTty \<and>
   ''dest'' \<noteq> [] \<and> lookup (tty_world []) (path_of ''dest'') = None \<and>
   lookup (tty_world []) (butlast (path_of ''dest'')) = Some (Dir 493) \<and> \<not> oom (tty_world []) \<and>
   (\<exists>w'. kk_os_copy_file Other_unix (tty_world []) ''missing'' ''dest'' False = Some (0, w') \<and>
      lookup w' (path_of ''dest'') = Some (Reg 400 []))"
proof -
  have h: "resolve (tty_world []) ''missing'' = Inl E_NOENT"
    "map_of (fdt (tty_world [])) (errno_of E_NOENT) = Some OTty"
    "''dest'' \<noteq> []" "lookup (tty_world []) (path_of ''dest'') = None"
    "lookup (tty_world []) (butlast (path_of ''dest'')) = Some (Dir 493)" "\<not> oom (tty_world [])"
    by (simp_all add: resolve_def lookup_def path_of_def tty_world_def)
  from copy_missing_source_creates_dest [OF h, of False] h show ?thesis by blast
qed

lemma resolve_kinds:
  assumes "\<And>p. kinds w' p = kinds w p"
  shows "(resolve w' s = Inl e) = (resolve w s = Inl e)"
proof -
  have a: "kinds w' (path_of s) = kinds w (path_of s)"
    and b: "kinds w' (butlast (path_of s)) = kinds w (butlast (path_of s))"
    using assms by blast+
  show ?thesis
    using a b
    by (auto simp: resolve_def kinds_def split: option.splits node.splits)
qed

lemma sys_write_kinds:
  "sys_write w fd d = Some (n, w') \<Longrightarrow> kinds w' p = kinds w p"
  by (auto simp: sys_write_def Let_def kinds_def lookup_def map_of_update_alist
        split: list.splits sysres.splits option.splits ofile.splits node.splits if_splits)

lemma write_loop_kinds:
  "write_loop w out buf ofs = Some (err, moved, w') \<Longrightarrow> kinds w' p = kinds w p"
proof (induction "script w" arbitrary: w ofs)
  case Nil
  then show ?case
    by (subst (asm) write_loop_step) (simp add: sys_write_def)
next
  case (Cons r rs)
  obtain n w1 where sw: "sys_write w out (take (chunk (length buf) ofs) (drop ofs buf)) = Some (n, w1)"
    using Cons.prems by (subst (asm) write_loop_step) (auto split: option.splits)
  have rs: "rs = script w1"
    using sys_write_script [OF sw] Cons.hyps(2) [symmetric] by auto
  have "w' = w1 \<or> (\<exists>ofs'. write_loop w1 out buf ofs' = Some (err, moved, w'))"
    using Cons.prems unfolding write_loop_step [of w out buf ofs] sw
    by (auto split: if_splits)
  then show ?case
  proof
    assume "w' = w1"
    with sys_write_kinds [OF sw] show ?thesis by simp
  next
    assume "\<exists>ofs'. write_loop w1 out buf ofs' = Some (err, moved, w')"
    then obtain ofs' where "write_loop w1 out buf ofs' = Some (err, moved, w')" by blast
    from Cons.hyps(1) [OF rs this] sys_write_kinds [OF sw] show ?thesis by simp
  qed
qed

lemma close_closes:
  "kk_posix_close w f = (r, w') \<Longrightarrow> map_of (fdt w') f = None \<and> (\<forall>p. kinds w' p = kinds w p)"
  by (auto simp: kk_posix_close_def sys_close_def kinds_def lookup_def map_of_filter_neq
        split: option.splits)

text \<open>
  C1 fails on the code. \<open>kk_os_write_text_file\<close> opens the path with \<open>O_WRONLY\<close> alone,
  so on a path that does not exist \<open>open\<close> fails; the content goes to the descriptor
  whose number equals the error, and that descriptor is closed. Whatever the world, the
  content and the status of the write: the path still does not exist afterwards, and
  \<open>kk_os_read_text_file\<close> on it returns \<open>EBADF\<close> and assigns no result. The witness is
  a run in which the write returns 0.
\<close>

theorem write_fresh_path_not_readable:
  assumes fresh: "resolve w path = Inl e"
    and wr: "kk_os_write_text_file w path content = Some (st, w')"
  shows "resolve w' path = Inl e \<and>
         kk_os_read_text_file w' path = Some (EBADF, None, w'\<lparr>errno := EBADF\<rparr>)"
proof -
  let ?f = "errno_of e"
  define w0 where "w0 = w\<lparr>errno := ?f\<rparr>"
  have pos: "0 < ?f" by (rule errno_of_pos)
  have k0: "kinds w0 p = kinds w p" for p by (simp add: kinds_def w0_def)
  have op: "kk_posix_open w path 1 = (?f, w0)"
    using fresh pos by (simp add: kk_posix_open_def sys_open_def w0_def)
  obtain err w2 where mid: "(if length content > 0 then
                (case kk_posix_write_retry w0 ?f content of
                   None \<Rightarrow> None
                 | Some (err, nwritten, w2) \<Rightarrow>
                     Some ((if err = 0 \<and> nwritten < length content then EIO else err), w2))
              else Some (0, w0)) = Some (err, w2)"
    and fin: "w' = snd (kk_posix_close w2 ?f)"
    using wr pos
    by (auto simp: kk_os_write_text_file_def op Let_def split: option.splits prod.splits if_splits)
  have k2: "kinds w2 p = kinds w0 p" for p
  proof (cases "length content > 0")
    case False
    with mid show ?thesis by simp
  next
    case True
    with mid obtain e1 n1 where "write_loop w0 ?f content 0 = Some (e1, n1, w2)"
      by (auto simp: kk_posix_write_retry_def split: option.splits)
    then show ?thesis by (rule write_loop_kinds)
  qed
  obtain r where cl: "kk_posix_close w2 ?f = (r, w')"
    using fin by (cases "kk_posix_close w2 ?f") simp
  note c = close_closes [OF cl]
  have k: "kinds w' p = kinds w p" for p using c k2 k0 by simp
  have fresh': "resolve w' path = Inl e"
    using resolve_kinds [of w' w path e] k fresh by simp
  have closed: "map_of (fdt w') ?f = None" using c by simp
  have op': "kk_posix_open w' path 0 = (?f, w'\<lparr>errno := ?f\<rparr>)"
    using fresh' pos by (simp add: kk_posix_open_def sys_open_def)
  have sz: "kk_posix_fsize (w'\<lparr>errno := ?f\<rparr>) ?f = (EBADF, 0, w'\<lparr>errno := EBADF\<rparr>)"
    using closed by (simp add: kk_posix_fsize_def kk_posix_fstat_def sys_fstat_def)
  have cl': "kk_posix_close (w'\<lparr>errno := 9\<rparr>) ?f = (9, w'\<lparr>errno := 9\<rparr>)"
    using closed by (simp add: kk_posix_close_def sys_close_def)
  have "kk_os_read_text_file w' path = Some (EBADF, None, w'\<lparr>errno := EBADF\<rparr>)"
    using pos by (simp add: kk_os_read_text_file_def op' sz cl')
  with fresh' show ?thesis by simp
qed

theorem write_fresh_path_not_readable_witness:
  "resolve (tty_world [Xfer 9]) ''fresh.txt'' = Inl E_NOENT \<and>
   kk_os_write_text_file (tty_world [Xfer 9]) ''fresh.txt'' ''hello''
     = Some (0, (tty_world [])\<lparr>fdt := [(0, OTty), (1, OTty)], errno := ENOENT\<rparr>) \<and>
   resolve ((tty_world [])\<lparr>fdt := [(0, OTty), (1, OTty)], errno := ENOENT\<rparr>) ''fresh.txt'' = Inl E_NOENT \<and>
   kk_os_read_text_file ((tty_world [])\<lparr>fdt := [(0, OTty), (1, OTty)], errno := ENOENT\<rparr>) ''fresh.txt''
     = Some (EBADF, None, (tty_world [])\<lparr>fdt := [(0, OTty), (1, OTty)], errno := EBADF\<rparr>)"
proof -
  have h: "resolve (tty_world [Xfer 9]) ''fresh.txt'' = Inl E_NOENT"
    by (simp add: resolve_def lookup_def path_of_def tty_world_def)
  have run: "kk_os_write_text_file (tty_world [Xfer 9]) ''fresh.txt'' ''hello''
     = Some (0, (tty_world [])\<lparr>fdt := [(0, OTty), (1, OTty)], errno := ENOENT\<rparr>)"
    by (simp add: kk_os_write_text_file_def kk_posix_open_def sys_open_def
          resolve_def lookup_def path_of_def
          kk_posix_write_retry_def write_loop_step chunk_def KK_SSIZE_MAX_def sys_write_def
          kk_posix_close_def sys_close_def tty_world_def)
  from write_fresh_path_not_readable [OF h run] h run show ?thesis by simp
qed

section \<open>The kernel-assisted copy\<close>

lemma lookup_fdt: "lookup (w\<lparr>fdt := t\<rparr>) p = lookup w p"
  by (simp add: lookup_def)

lemma filter_unused: "map_of t a = None \<Longrightarrow> filter (\<lambda>(k, f). k \<noteq> a) t = t"
  by (induction t) (auto split: if_splits)

lemma open_existing:
  "resolve w from = Inr (Reg m c) \<Longrightarrow>
     kk_posix_open w from 0 = (free_fd (fdt w), w\<lparr>fdt := fdt w @ [(free_fd (fdt w), OFile (path_of from) 0 0)]\<rparr>)"
  using free_fd_nonneg [of "fdt w"]
  by (simp add: kk_posix_open_def sys_open_def Let_def)

lemma resolve_Inr_lookup:
  "resolve w s = Inr nd \<Longrightarrow> lookup w (path_of s) = Some nd"
  by (auto simp: resolve_def split: if_splits option.splits node.splits)

text \<open>
  C7 fails on the code. The only fall through to the buffered loop that \<open>os.c\<close> contains
  is the block of \<open>kk_posix_copy_file\<close> that no build compiles, so no build falls
  through. In the Linux build the kernel-assisted copy is one call of \<open>sendfile\<close>, and
  whatever error that call fails with, \<open>EINVAL\<close> before any byte was copied included,
  is the status of the copy. Take any world in which the source is a regular file, the
  destination does not exist, its parent directory does, and the next call that moves
  bytes fails with the error \<open>e\<close>. Then \<open>kk_os_copy_file\<close> returns \<open>errno_of e\<close>; no further
  call that moves bytes was made (the rest of the script is untouched), the destination
  is left as an empty file, and both descriptors are closed again.
\<close>

theorem sendfile_failure_is_final:
  assumes src: "resolve w from = Inr (Reg m c)"
    and dst: "to \<noteq> []" "lookup w (path_of to) = None"
      "lookup w (butlast (path_of to)) = Some (Dir dm)"
    and scr: "script w = Fail e # rs"
  shows "\<exists>w'. kk_os_copy_file Linux w from to pm = Some (errno_of e, w') \<and>
           script w' = rs \<and> lookup w' (path_of to) = Some (Reg (m mod 4096) []) \<and>
           fdt w' = fdt w"
proof -
  let ?inp = "free_fd (fdt w)"
  let ?q = "path_of from"
  let ?p = "path_of to"
  define w1 where "w1 = w\<lparr>fdt := fdt w @ [(?inp, OFile ?q 0 0)]\<rparr>"
  let ?out = "free_fd (fdt w1)"
  define w3 where "w3 = w1\<lparr>fs := fs w @ [(?p, Reg (m mod 4096) [])],
                       fdt := fdt w1 @ [(?out, OFile ?p 0 O_WRONLY)]\<rparr>"
  define w4 where "w4 = w3\<lparr>script := rs, errno := errno_of e\<rparr>"
  define w5 where "w5 = w4\<lparr>fdt := filter (\<lambda>(k, f). k \<noteq> ?inp) (fdt w4)\<rparr>"
  define w6 where "w6 = w5\<lparr>fdt := filter (\<lambda>(k, f). k \<noteq> ?out) (fdt w5)\<rparr>"
  have un1: "map_of (fdt w) ?inp = None" by (rule free_fd_unused)
  have un2: "map_of (fdt w1) ?out = None" by (rule free_fd_unused)
  have nn1: "0 \<le> ?inp" and nn2: "0 \<le> ?out" by (rule free_fd_nonneg)+
  have neq: "?out \<noteq> ?inp" using un2 by (auto simp: w1_def map_add_def split: option.splits)
  have un3: "map_of (fdt w) ?out = None" using un2 by (auto simp: w1_def map_add_def split: option.splits)
  have lq: "lookup w ?q = Some (Reg m c)" using src by (rule resolve_Inr_lookup)
  have p_ne: "?p \<noteq> []" using dst(2) by (auto simp: lookup_def)
  have q_ne: "?q \<noteq> []" using lq by (auto simp: lookup_def split: if_splits)
  have op: "kk_posix_open w from 0 = (?inp, w1)"
    using open_existing [OF src] by (simp add: w1_def)
  have st: "sys_fstat w1 ?inp stat_zero = (0, stat_of (Reg m c), w1)"
    using un1 lq q_ne by (simp add: sys_fstat_def w1_def map_add_def lookup_def)
  have md: "(32768 + m mod 4096) mod 4096 = m mod (4096::nat)"
    by (simp add: mod_add_left_eq [symmetric])
  have cr: "kk_posix_creat w1 to (32768 + m mod 4096) = (?out, w3)"
    using dst p_ne by (simp add: kk_posix_creat_def sys_creat_def w1_def w3_def Let_def lookup_fdt md)
  have sf: "sys_sendfile w3 ?out ?inp 0 (length c) = Some (-1, w4)"
    using scr by (simp add: sys_sendfile_def w3_def w1_def w4_def)
  have c1: "sys_close w4 ?inp = (0, w5)"
    using un1 by (simp add: sys_close_def w5_def w4_def w3_def w1_def map_add_def)
  have c2: "sys_close w5 ?out = (0, w6)"
    using neq un3
    by (simp add: sys_close_def w6_def w5_def w4_def w3_def w1_def map_of_filter_neq map_add_def)
  have e4: "errno w4 = errno_of e" by (simp add: w4_def)
  have run: "kk_os_copy_file Linux w from to pm = Some (errno_of e, w6)"
    using nn1 nn2 errno_of_pos [of e]
    by (simp add: kk_os_copy_file_def op st cr sf c1 c2 e4)
  have lk: "lookup w6 ?p = Some (Reg (m mod 4096) [])"
    using dst(2) p_ne by (simp add: lookup_def w6_def w5_def w4_def w3_def w1_def map_add_def)
  have sc: "script w6 = rs" by (simp add: w6_def w5_def w4_def)
  have fd: "fdt w6 = fdt w"
    using neq filter_unused [OF un1] filter_unused [OF un3]
    by (simp add: w6_def w5_def w4_def w3_def w1_def)
  from run lk sc fd show ?thesis by blast
qed

text \<open>
  A run of it: \<open>f\<close> holds \<open>hello\<close>, and \<open>sendfile\<close> fails at once with \<open>EINVAL\<close>. The copy
  returns \<open>EINVAL\<close> and leaves \<open>dest\<close> empty, with the two results that follow in the
  script unused. The buffered loop of the other build copies the file with just these
  two results.
\<close>

theorem sendfile_failure_is_final_witness:
  "resolve (file_world ''hello'' [Fail E_INVAL, Xfer 9, Xfer 9]) ''f'' = Inr (Reg 420 ''hello'') \<and>
   ''dest'' \<noteq> [] \<and>
   lookup (file_world ''hello'' [Fail E_INVAL, Xfer 9, Xfer 9]) (path_of ''dest'') = None \<and>
   lookup (file_world ''hello'' [Fail E_INVAL, Xfer 9, Xfer 9]) (butlast (path_of ''dest'')) = Some (Dir 493) \<and>
   script (file_world ''hello'' [Fail E_INVAL, Xfer 9, Xfer 9]) = Fail E_INVAL # [Xfer 9, Xfer 9] \<and>
   (\<exists>w'. kk_os_copy_file Linux (file_world ''hello'' [Fail E_INVAL, Xfer 9, Xfer 9]) ''f'' ''dest'' False
           = Some (EINVAL, w') \<and>
         script w' = [Xfer 9, Xfer 9] \<and> lookup w' (path_of ''dest'') = Some (Reg 420 []) \<and>
         fdt w' = fdt (file_world ''hello'' [Fail E_INVAL, Xfer 9, Xfer 9])) \<and>
   kk_os_copy_file Other_unix (file_world ''hello'' [Xfer 9, Xfer 9]) ''f'' ''dest'' False
     = Some (0, \<lparr>fs = [([''f''], Reg 420 ''hello''), ([''dest''], Reg 420 ''hello'')],
         fdt = [(0, OTty), (1, OTty), (2, OTty), (3, OFile [''f''] 0 0)],
         errno = 0, script = [], oom = False\<rparr>)"
proof -
  let ?w = "file_world ''hello'' [Fail E_INVAL, Xfer 9, Xfer 9]"
  have h: "resolve ?w ''f'' = Inr (Reg 420 ''hello'')" "''dest'' \<noteq> []"
    "lookup ?w (path_of ''dest'') = None" "lookup ?w (butlast (path_of ''dest'')) = Some (Dir 493)"
    "script ?w = Fail E_INVAL # [Xfer 9, Xfer 9]"
    by (simp_all add: resolve_def lookup_def path_of_def file_world_def)
  have g: "kk_os_copy_file Other_unix (file_world ''hello'' [Xfer 9, Xfer 9]) ''f'' ''dest'' False
     = Some (0, \<lparr>fs = [([''f''], Reg 420 ''hello''), ([''dest''], Reg 420 ''hello'')],
         fdt = [(0, OTty), (1, OTty), (2, OTty), (3, OFile [''f''] 0 0)],
         errno = 0, script = [], oom = False\<rparr>)"
    by code_simp
  from sendfile_failure_is_final [OF h, of False] h g show ?thesis by simp
qed

end
